theory Spec2Isabelle
  imports Complex_Main "HOL-Library.Log_Nat"
begin

section \<open>Data model\<close>

text \<open>
  The C++ sources work on R matrices through Rcpp. A matrix is stored column-major: the
  cell in row \<open>i\<close> and column \<open>j\<close> of a matrix with \<open>nrow\<close> rows lives at offset
  \<open>i + j * nrow\<close> of its data vector. The flood filler and the labeler of
  \<^verbatim>\<open>clear_border.cpp\<close> receive the raw data pointer together with
  \<open>size = {nrow, ncol}\<close>, so that \<open>size.x\<close> is the row count, \<open>pt.x\<close> a row index and
  \<open>pt.y\<close> a column index. C \<^verbatim>\<open>int\<close> values are modelled as \<^typ>\<open>int\<close>: indices,
  positions and labels are bounded by the number of cells of the matrix and stay within
  32 bits. Where the code computes with values it reads from its arguments (the ranges of
  a bounding box, the fill value of the collision guard) the model reduces the result to
  32 bits.
\<close>

text \<open>
  The value a 32-bit \<^verbatim>\<open>int\<close> holds after an operation whose exact result is \<open>v\<close>.
  Signed overflow is undefined in C++; the compiled code wraps around.
\<close>

definition wrap32 :: "int \<Rightarrow> int" where
  "wrap32 v = (v + 2147483648) mod 4294967296 - 2147483648"

datatype XYPoint = XYPoint (pt_x: int) (pt_y: int)

definition offset :: "XYPoint \<Rightarrow> int \<Rightarrow> int \<Rightarrow> nat" where
  "offset sz x y = nat (x + y * pt_x sz)"

section \<open>The scanline flood filler (\<^verbatim>\<open>_floodFill<int>\<close>)\<close>

text \<open>
  \<^verbatim>\<open>std::fabs(static_cast<double>(a - b)) <= tol\<close>, the test the filler uses for
  "matches the target". The tolerance is a \<^verbatim>\<open>double\<close>, modelled as a real; the
  conversion of an \<^verbatim>\<open>int\<close> to \<^verbatim>\<open>double\<close> and the comparison are exact. The
  difference is the exact one: the cells of a label grid and the values compared with
  them are labels and the sentinels 0 and \<open>-1\<close>, whose differences stay within 32 bits.
\<close>

definition fabs_le :: "int \<Rightarrow> int \<Rightarrow> real \<Rightarrow> bool" where
  "fabs_le a b tol \<longleftrightarrow> \<bar>real_of_int (a - b)\<bar> \<le> tol"

text \<open>
  Arithmetic on \<^verbatim>\<open>double\<close>: the result of an operation is the exact result rounded to
  the nearest binary64 number, ties to the even significand. \<open>pow2 e\<close> is the power
  \<open>2 ^ e\<close> for an integer \<open>e\<close>, and \<open>exponent x\<close> is the \<open>e\<close> with
  \<open>2 ^ e \<le> x < 2 ^ (e + 1)\<close> for a positive \<open>x\<close>. A binary64 number with exponent
  \<open>e\<close> is a multiple of \<open>2 ^ (e - 52)\<close>, and of \<open>2 ^ (- 1074)\<close> in the
  subnormal range. Infinities and NaN are not modelled: a tolerance is a finite number,
  and a sum too large for binary64 is too large for the cast below as well.
\<close>

definition pow2 :: "int \<Rightarrow> real" where
  "pow2 e = (if 0 \<le> e then 2 ^ nat e else 1 / 2 ^ nat (- e))"

definition exponent :: "real \<Rightarrow> int" where
  "exponent x =
     (if 1 \<le> x then bitlen \<lfloor>x\<rfloor> - 1
      else (let k = bitlen \<lfloor>1 / x\<rfloor> - 1 in if x * 2 ^ nat k = 1 then - k else - k - 1))"

definition round_even :: "real \<Rightarrow> int" where
  "round_even y =
     (let f = \<lfloor>y\<rfloor>; r = y - of_int f
      in if r < 1 / 2 then f else if 1 / 2 < r then f + 1 else if even f then f else f + 1)"

definition round_pos :: "real \<Rightarrow> real" where
  "round_pos x =
     (let u = max (exponent x - 52) (- 1074)
      in of_int (round_even (x / pow2 u)) * pow2 u)"

definition round_double :: "real \<Rightarrow> real" where
  "round_double x = (if x = 0 then 0 else if x < 0 then - round_pos (- x) else round_pos x)"

text \<open>
  \<^verbatim>\<open>static_cast<int>\<close> of a double: truncation towards zero. The cast of a value
  outside the range of \<^verbatim>\<open>int\<close> is undefined in C++; the compiled code yields the
  least \<^verbatim>\<open>int\<close>.
\<close>

definition static_cast_int :: "real \<Rightarrow> int" where
  "static_cast_int d =
     (if - 2147483649 < d \<and> d < 2147483648 then (if 0 \<le> d then \<lfloor>d\<rfloor> else \<lceil>d\<rceil>)
      else - 2147483648)"

text \<open>
  The collision guard (lines 23 to 25): when the fill value \<open>rc\<close> is within the
  tolerance of the target \<open>tc\<close> it is replaced by \<^verbatim>\<open>static_cast<int>(rc + tol + 1)\<close>,
  where the two additions are additions of doubles.
\<close>

definition collision_guard :: "int \<Rightarrow> int \<Rightarrow> real \<Rightarrow> int" where
  "collision_guard tc rc tol =
     (if fabs_le tc rc tol
      then static_cast_int (round_double (round_double (real_of_int rc + tol) + 1))
      else rc)"

text \<open>
  The first inner loop (lines 33 to 35): walk \<open>pt.y\<close> down to the cell before the
  first one of the run that matches the target; the caller adds one.
\<close>

function scan_up :: "int list \<Rightarrow> XYPoint \<Rightarrow> int \<Rightarrow> real \<Rightarrow> int \<Rightarrow> int \<Rightarrow> int" where
  "scan_up m sz tc tol x y =
     (if 0 \<le> y \<and> fabs_le (m ! offset sz x y) tc tol
      then scan_up m sz tc tol x (y - 1)
      else y)"
  by pat_completeness auto
termination
  by (relation "measure (\<lambda>(m, sz, tc, tol, x, y). nat (y + 1))") auto

text \<open>
  The second inner loop (lines 39 to 56): paint the run downwards, pushing one seed per
  run of matching cells in the column to the left and in the column to the right. The
  stack is a list whose head is the top.
\<close>

function fill_span ::
  "int list \<Rightarrow> XYPoint \<Rightarrow> int \<Rightarrow> int \<Rightarrow> real \<Rightarrow> int \<Rightarrow> XYPoint list \<Rightarrow> bool \<Rightarrow> bool \<Rightarrow> int
     \<Rightarrow> int list \<times> XYPoint list" where
  "fill_span m sz tc rc tol x s spanLeft spanRight y =
     (if y < pt_y sz \<and> fabs_le (m ! offset sz x y) tc tol then
        (let m1 = m[offset sz x y := rc];
             (s1, spanLeft1) =
               (if \<not> spanLeft \<and> 0 < x \<and> fabs_le (m1 ! offset sz (x - 1) y) tc tol
                then (XYPoint (x - 1) y # s, True)
                else if spanLeft \<and> 0 < x \<and> \<not> fabs_le (m1 ! offset sz (x - 1) y) tc tol
                then (s, False)
                else (s, spanLeft));
             (s2, spanRight1) =
               (if \<not> spanRight \<and> x < pt_x sz - 1 \<and> fabs_le (m1 ! offset sz (x + 1) y) tc tol
                then (XYPoint (x + 1) y # s1, True)
                else if spanRight \<and> x < pt_x sz - 1
                        \<and> \<not> fabs_le (m1 ! offset sz (x + 1) y) tc tol
                then (s1, False)
                else (s1, spanRight))
         in fill_span m1 sz tc rc tol x s2 spanLeft1 spanRight1 (y + 1))
      else (m, s))"
  by pat_completeness auto
termination
  by (relation "measure (\<lambda>(m, sz, tc, rc, tol, x, s, l, r, y). nat (pt_y sz - y))") auto

text \<open>
  The outer loop (lines 29 to 57) runs until the stack is empty. Nothing in the code
  bounds the number of its iterations, so it is a partial function: \<open>None\<close> is a run
  that never leaves the loop.
\<close>

partial_function (option) floodFill_loop ::
  "int list \<Rightarrow> XYPoint \<Rightarrow> int \<Rightarrow> int \<Rightarrow> real \<Rightarrow> XYPoint list \<Rightarrow> int list option" where
  "floodFill_loop m sz tc rc tol s =
     (case s of
        [] \<Rightarrow> Some m
      | pt # s' \<Rightarrow>
          (case fill_span m sz tc rc tol (pt_x pt) s' False False
                  (scan_up m sz tc tol (pt_x pt) (pt_y pt) + 1) of
             (m', s'') \<Rightarrow> floodFill_loop m' sz tc rc tol s''))"

definition floodFill :: "int list \<Rightarrow> XYPoint \<Rightarrow> XYPoint \<Rightarrow> int \<Rightarrow> real \<Rightarrow> int list option" where
  "floodFill m sz xy rc tol =
     (let tc = m ! offset sz (pt_x xy) (pt_y xy)
      in floodFill_loop m sz tc (collision_guard tc rc tol) tol [xy])"

section \<open>The connected-component labeler (\<^verbatim>\<open>_bwlabel\<close> and \<^verbatim>\<open>bwlabel\<close>)\<close>

text \<open>
  A counting loop \<^verbatim>\<open>for (int i = lo; i < n; i++) body\<close> over a state.
\<close>

function for_loop :: "int \<Rightarrow> int \<Rightarrow> (int \<Rightarrow> 's \<Rightarrow> 's) \<Rightarrow> 's \<Rightarrow> 's" where
  "for_loop i n body s = (if i < n then for_loop (i + 1) n body (body i s) else s)"
  by pat_completeness auto
termination
  by (relation "measure (\<lambda>(i, n, body, s). nat (n - i))") auto

text \<open>
  The first loop of \<^verbatim>\<open>_bwlabel\<close> (lines 67 to 69) overwrites every cell of
  \<open>res\<close>: background where the source is exactly zero, the sentinel \<open>-1\<close> elsewhere.
  The function is a template over the source's element type.
\<close>

definition init_labels :: "'a::zero list \<Rightarrow> int list \<Rightarrow> XYPoint \<Rightarrow> int list" where
  "init_labels src res sz =
     for_loop 0 (pt_x sz * pt_y sz)
       (\<lambda>i r. r[nat i := (if src ! nat i = 0 then 0 else - 1)]) res"

text \<open>
  The scan (lines 71 to 80): \<open>ky\<close> runs over the columns, \<open>kx\<close> over the rows of a
  column, \<open>pos\<close> over the offsets in storage order. An unvisited cell is flood filled
  with the next label, tolerance 0.
\<close>

function bwlabel_inner ::
  "int list \<Rightarrow> XYPoint \<Rightarrow> int \<Rightarrow> int \<Rightarrow> int \<Rightarrow> int \<Rightarrow> (int list \<times> int \<times> int) option" where
  "bwlabel_inner res sz ky kx pos idx =
     (if kx < pt_x sz then
        (if res ! nat pos = - 1 then
           (case floodFill res sz (XYPoint kx ky) idx 0 of
              None \<Rightarrow> None
            | Some res' \<Rightarrow> bwlabel_inner res' sz ky (kx + 1) (pos + 1) (idx + 1))
         else bwlabel_inner res sz ky (kx + 1) (pos + 1) idx)
      else Some (res, pos, idx))"
  by pat_completeness auto
termination
  by (relation "measure (\<lambda>(res, sz, ky, kx, pos, idx). nat (pt_x sz - kx))") auto

function bwlabel_outer ::
  "int list \<Rightarrow> XYPoint \<Rightarrow> int \<Rightarrow> int \<Rightarrow> int \<Rightarrow> (int list \<times> int) option" where
  "bwlabel_outer res sz ky pos idx =
     (if ky < pt_y sz then
        (case bwlabel_inner res sz ky 0 pos idx of
           None \<Rightarrow> None
         | Some (res', pos', idx') \<Rightarrow> bwlabel_outer res' sz (ky + 1) pos' idx')
      else Some (res, idx))"
  by pat_completeness auto
termination
  by (relation "measure (\<lambda>(res, sz, ky, pos, idx). nat (pt_y sz - ky))") auto

definition bwlabel_raw :: "'a::zero list \<Rightarrow> int list \<Rightarrow> XYPoint \<Rightarrow> (int list \<times> int) option" where
  "bwlabel_raw src res sz =
     (case bwlabel_outer (init_labels src res sz) sz 0 0 1 of
        None \<Rightarrow> None
      | Some (res', idx) \<Rightarrow> Some (res', idx - 1))"

text \<open>
  An Rcpp matrix: its dimensions and its column-major data. \<open>cell M i j\<close> is
  \<^verbatim>\<open>M(i, j)\<close>, which Rcpp does not range check.
\<close>

datatype 'a matrix = Matrix (nrow: int) (ncol: int) (elems: "'a list")

definition cell :: "'a matrix \<Rightarrow> int \<Rightarrow> int \<Rightarrow> 'a" where
  "cell M i j = elems M ! nat (i + j * nrow M)"

definition put :: "'a matrix \<Rightarrow> int \<Rightarrow> int \<Rightarrow> 'a \<Rightarrow> 'a matrix" where
  "put M i j v = Matrix (nrow M) (ncol M) ((elems M)[nat (i + j * nrow M) := v])"

text \<open>A freshly constructed matrix, filled with one value (zero or \<open>false\<close>).\<close>

definition new_matrix :: "int \<Rightarrow> int \<Rightarrow> 'a \<Rightarrow> 'a matrix" where
  "new_matrix nr nc v = Matrix nr nc (replicate (nat (nr * nc)) v)"

text \<open>The exported \<^verbatim>\<open>bwlabel\<close> (lines 99 to 112), on a numeric matrix.\<close>

definition bwlabel :: "real matrix \<Rightarrow> (int matrix \<times> int) option" where
  "bwlabel x =
     (let sz = XYPoint (nrow x) (ncol x);
          res = new_matrix (nrow x) (ncol x) (0::int)
      in case bwlabel_raw (elems x) (elems res) sz of
           None \<Rightarrow> None
         | Some (res', num_labels) \<Rightarrow> Some (Matrix (nrow x) (ncol x) res', num_labels))"

section \<open>Clearing the components that touch the border (\<^verbatim>\<open>clear_border\<close>)\<close>

text \<open>
  Errors of the modelled functions. \<open>OutOfBounds\<close> stands for an unchecked access
  outside a matrix or vector, which is undefined behaviour in the source; the other
  values are the calls of \<^verbatim>\<open>Rcpp::stop\<close>.
\<close>

datatype error =
    OutOfBounds
  | Stop_empty_input
  | Stop_invalid_label
  | Stop_no_regions
  | Stop_label_too_large

definition in_bounds :: "'a matrix \<Rightarrow> int \<Rightarrow> int \<Rightarrow> bool" where
  "in_bounds M i j \<longleftrightarrow> 0 \<le> i \<and> i < nrow M \<and> 0 \<le> j \<and> j < ncol M"

definition store_cell :: "int \<times> int \<Rightarrow> 'a \<Rightarrow> 'a matrix \<Rightarrow> error + 'a matrix" where
  "store_cell ij v M =
     (if in_bounds M (fst ij) (snd ij) then Inr (put M (fst ij) (snd ij) v)
      else Inl OutOfBounds)"

fun for_each :: "('a \<Rightarrow> 's \<Rightarrow> error + 's) \<Rightarrow> 'a list \<Rightarrow> 's \<Rightarrow> error + 's" where
  "for_each f [] s = Inr s"
| "for_each f (a # as) s = (case f a s of Inl e \<Rightarrow> Inl e | Inr s' \<Rightarrow> for_each f as s')"

text \<open>
  The cells the two loops of lines 203 to 216 write, in the order they are written: for
  each \<open>i < ext\<close> the loops over \<open>j\<close> touch \<open>(i, j)\<close> and \<open>(nrow - i - 1, j)\<close>, then
  \<open>(j, i)\<close> and \<open>(j, ncol - i - 1)\<close>.
\<close>

definition border_accesses :: "int \<Rightarrow> int \<Rightarrow> int \<Rightarrow> (int \<times> int) list" where
  "border_accesses nr nc ext =
     concat (map (\<lambda>i. concat (map (\<lambda>j. [(i, j), (nr - i - 1, j)]) [0..nc - 1])) [0..ext - 1]) @
     concat (map (\<lambda>i. concat (map (\<lambda>j. [(j, i), (j, nc - i - 1)]) [0..nr - 1])) [0..ext - 1])"

definition border_frame :: "int \<Rightarrow> int \<Rightarrow> int \<Rightarrow> error + bool matrix" where
  "border_frame nr nc ext =
     for_each (\<lambda>ij. store_cell ij True) (border_accesses nr nc ext) (new_matrix nr nc False)"

text \<open>
  \<^verbatim>\<open>get_border_indices\<close> (lines 115 to 130). The \<^verbatim>\<open>std::unordered_set\<close> is a
  list without repetitions; its order is unspecified in C++ and only membership is used.
\<close>

definition get_border_indices :: "int matrix \<Rightarrow> bool matrix \<Rightarrow> int list" where
  "get_border_indices labels borders =
     for_loop 0 (nrow labels) (\<lambda>i.
       for_loop 0 (ncol labels) (\<lambda>j unique_labels.
         if cell borders i j then List.insert (cell labels i j) unique_labels
         else unique_labels)) []"

text \<open>\<^verbatim>\<open>create_label_mask\<close> (lines 134 to 144).\<close>

definition create_label_mask :: "int list \<Rightarrow> int list \<Rightarrow> bool list" where
  "create_label_mask indices borders_indices =
     for_loop 0 (int (length indices))
       (\<lambda>i label_mask. label_mask[nat i := indices ! nat i \<in> set borders_indices])
       (replicate (length indices) False)"

text \<open>
  \<^verbatim>\<open>create_clear_mask\<close> (lines 149 to 165). \<^verbatim>\<open>label_mask[label]\<close> is an unchecked
  vector access.
\<close>

definition create_clear_mask :: "int matrix \<Rightarrow> bool list \<Rightarrow> error + bool matrix" where
  "create_clear_mask labels label_mask =
     for_each (\<lambda>i.
       for_each (\<lambda>j cmask.
         let label = cell labels i j
         in if 0 \<le> label \<and> label < int (length label_mask)
            then Inr (put cmask i j (label_mask ! nat label))
            else Inl OutOfBounds) [0..ncol labels - 1]) [0..nrow labels - 1]
       (new_matrix (nrow labels) (ncol labels) False)"

text \<open>\<^verbatim>\<open>clear_border_pixels\<close> (lines 169 to 183).\<close>

definition clear_border_pixels :: "real matrix \<Rightarrow> bool matrix \<Rightarrow> real \<Rightarrow> real matrix" where
  "clear_border_pixels out cmask bgval =
     for_loop 0 (nrow out) (\<lambda>i.
       for_loop 0 (ncol out) (\<lambda>j out'.
         if cell cmask i j then put out' i j bgval else out')) out"

text \<open>
  \<^verbatim>\<open>clear_border\<close> (lines 188 to 232) on the value of its argument; \<open>out\<close> is the
  clone. The result is \<open>None\<close> when the labeler does not return.
\<close>

definition clear_border :: "real matrix \<Rightarrow> int \<Rightarrow> real \<Rightarrow> (error + real matrix) option" where
  "clear_border labels buffer_size bgval =
     (let out = labels;
          ext = buffer_size + 1
      in case border_frame (nrow out) (ncol out) ext of
           Inl e \<Rightarrow> Some (Inl e)
         | Inr borders \<Rightarrow>
             (case bwlabel out of
                None \<Rightarrow> None
              | Some (labeled_image, num_labels) \<Rightarrow>
                  (let border_indices = get_border_indices labeled_image borders;
                       indices = [0..num_labels];
                       label_mask = create_label_mask indices border_indices
                   in case create_clear_mask labeled_image label_mask of
                        Inl e \<Rightarrow> Some (Inl e)
                      | Inr cmask \<Rightarrow> Some (Inr (clear_border_pixels out cmask bgval)))))"

section \<open>Bounding boxes (\<^verbatim>\<open>regionprops_bbox\<close>)\<close>

text \<open>R's missing integer, \<^verbatim>\<open>NA_INTEGER\<close>, is the least 32-bit value.\<close>

definition NA_INTEGER :: int where
  "NA_INTEGER = - 2147483648"

text \<open>The scan of lines 17 to 32 for one label: \<open>(x_min, x_max, y_min, y_max)\<close>.\<close>

definition bbox_scan :: "int matrix \<Rightarrow> int \<Rightarrow> int \<times> int \<times> int \<times> int" where
  "bbox_scan labeled_image label =
     for_loop 0 (nrow labeled_image) (\<lambda>i.
       for_loop 0 (ncol labeled_image) (\<lambda>j (x_min, x_max, y_min, y_max).
         if cell labeled_image i j = label
         then (if i < x_min then i else x_min, if i > x_max then i else x_max,
               if j < y_min then j else y_min, if j > y_max then j else y_max)
         else (x_min, x_max, y_min, y_max)))
       (nrow labeled_image, - 1, ncol labeled_image, - 1)"

definition regionprops_bbox :: "int matrix \<Rightarrow> int \<Rightarrow> int matrix" where
  "regionprops_bbox labeled_image num_labels =
     for_loop 1 (num_labels + 1) (\<lambda>label bboxes.
       case bbox_scan labeled_image label of
         (x_min, x_max, y_min, y_max) \<Rightarrow>
           if x_max \<noteq> - 1
           then put (put (put (put bboxes (label - 1) 0 x_min) (label - 1) 1 x_max)
                       (label - 1) 2 y_min) (label - 1) 3 y_max
           else put (put (put (put bboxes (label - 1) 0 NA_INTEGER) (label - 1) 1 NA_INTEGER)
                       (label - 1) 2 NA_INTEGER) (label - 1) 3 NA_INTEGER)
       (new_matrix num_labels 4 0)"

section \<open>Selecting the two dominant regions (\<^verbatim>\<open>process_lung_regions\<close>)\<close>

text \<open>
  One step of the ranking scan of \<^verbatim>\<open>filter_lung_regions\<close> (lines 25 to 40) on
  \<open>(max_area_1, max_area_2, max_label_1, max_label_2)\<close>.
\<close>

definition top_two_step :: "int list \<Rightarrow> int \<Rightarrow> int \<times> int \<times> int \<times> int \<Rightarrow> int \<times> int \<times> int \<times> int" where
  "top_two_step region_areas label st =
     (case st of (max_area_1, max_area_2, max_label_1, max_label_2) \<Rightarrow>
        (let area = region_areas ! nat (label - 1)
         in if area > max_area_1 then (area, max_area_1, label, max_label_1)
            else if area > max_area_2 then (max_area_1, area, max_label_1, label)
            else (max_area_1, max_area_2, max_label_1, max_label_2)))"

text \<open>
  \<^verbatim>\<open>filter_lung_regions\<close> (lines 5 to 56). The result carries the kept labels and
  whether \<^verbatim>\<open>Rcpp::warning\<close> was called.
\<close>

definition filter_lung_regions :: "int list \<Rightarrow> int list \<Rightarrow> error + int list \<times> bool" where
  "filter_lung_regions valid_regions region_areas =
     (if valid_regions = [] \<or> region_areas = [] then Inl Stop_empty_input
      else if list_ex (\<lambda>label. label \<le> 0 \<or> label > int (length region_areas)) valid_regions
      then Inl Stop_invalid_label
      else case fold (top_two_step region_areas) valid_regions (- 1, - 1, - 1, - 1) of
             (max_area_1, max_area_2, max_label_1, max_label_2) \<Rightarrow>
               (let top_two_labels =
                      (if max_label_1 \<noteq> - 1 then [max_label_1] else []) @
                      (if max_label_2 \<noteq> - 1 then [max_label_2] else [])
                in Inr (top_two_labels, length top_two_labels < 2)))"

text \<open>The area tally of lines 65 to 78, which stops on a label without a region.\<close>

definition tally_areas :: "int matrix \<Rightarrow> int \<Rightarrow> error + int list" where
  "tally_areas label_image n_labels =
     for_each (\<lambda>i.
       for_each (\<lambda>j region_areas.
         let label = cell label_image i j
         in if label > 0
            then (if label > n_labels then Inl Stop_label_too_large
                  else Inr (region_areas[nat (label - 1) := region_areas ! nat (label - 1) + 1]))
            else Inr region_areas) [0..ncol label_image - 1]) [0..nrow label_image - 1]
       (replicate (nat n_labels) 0)"

text \<open>
  The extent filter of lines 81 to 93, threshold 350. The two ranges are differences of
  \<^verbatim>\<open>int\<close> values read from the table.
\<close>

definition extent_filter :: "int matrix \<Rightarrow> int list" where
  "extent_filter regions =
     for_loop 0 (nrow regions) (\<lambda>i valid_regions.
       let x_min = cell regions i 0;
           x_max = cell regions i 1;
           y_min = cell regions i 2;
           y_max = cell regions i 3;
           x_range = wrap32 (x_max - x_min);
           y_range = wrap32 (y_max - y_min)
       in if x_range < 350 \<and> y_range < 350 then valid_regions @ [i + 1] else valid_regions) []"

text \<open>The last loop, lines 104 to 111.\<close>

definition reset_others :: "int matrix \<Rightarrow> int list \<Rightarrow> int matrix" where
  "reset_others label_image top_two_labels =
     for_loop 0 (nrow label_image) (\<lambda>i.
       for_loop 0 (ncol label_image) (\<lambda>j img.
         let label = cell img i j
         in if label > 0 \<and> label \<notin> set top_two_labels then put img i j 0 else img))
       label_image"

text \<open>
  \<^verbatim>\<open>process_lung_regions\<close> (lines 59 to 118): the processed image, the kept labels,
  and whether a warning was raised on the way.
\<close>

definition process_lung_regions ::
  "int matrix \<Rightarrow> int matrix \<Rightarrow> error + int matrix \<times> int list \<times> bool" where
  "process_lung_regions label_image regions =
     (let n_labels = nrow regions
      in if n_labels = 0 then Inl Stop_no_regions
         else case tally_areas label_image n_labels of
                Inl e \<Rightarrow> Inl e
              | Inr region_areas \<Rightarrow>
                  (let valid_regions = extent_filter regions
                   in case (if length valid_regions > 2
                            then filter_lung_regions valid_regions region_areas
                            else Inr (valid_regions, False)) of
                        Inl e \<Rightarrow> Inl e
                      | Inr (top_two_labels, warned) \<Rightarrow>
                          Inr (reset_others label_image top_two_labels, top_two_labels, warned)))"

section \<open>The two orchestrators as calls on R objects\<close>

text \<open>
  An exported function receives its matrix arguments as handles on the caller's R
  objects: \<^verbatim>\<open>NumericMatrix\<close> and \<^verbatim>\<open>IntegerMatrix\<close> wrap the object they are given, and
  \<^verbatim>\<open>m(i, j) = v\<close> writes into it. The heap holds the numeric and the integer matrices, a
  handle is an index into it, and \<^verbatim>\<open>clone\<close> allocates a new object with the same
  contents.
\<close>

datatype heap = Heap (reals: "real matrix list") (ints: "int matrix list")

definition clone :: "heap \<Rightarrow> nat \<Rightarrow> heap \<times> nat" where
  "clone h a = (Heap (reals h @ [reals h ! a]) (ints h), length (reals h))"

text \<open>
  \<^verbatim>\<open>clear_border\<close> (lines 188 to 232) on a handle: line 190 clones the argument, all
  writes of \<^verbatim>\<open>clear_border_pixels\<close> go to the clone, and the clone is returned. The
  matrices \<^verbatim>\<open>borders\<close>, \<^verbatim>\<open>labeled_image\<close> and \<^verbatim>\<open>mask\<close> are local objects and are left out
  of the heap.
\<close>

definition clear_border_call :: "heap \<Rightarrow> nat \<Rightarrow> int \<Rightarrow> real \<Rightarrow> (error + heap \<times> nat) option" where
  "clear_border_call h labels buffer_size bgval =
     (case clone h labels of
        (h1, out) \<Rightarrow>
          (case clear_border (reals h1 ! out) buffer_size bgval of
             None \<Rightarrow> None
           | Some (Inl e) \<Rightarrow> Some (Inl e)
           | Some (Inr v) \<Rightarrow> Some (Inr (Heap ((reals h1)[out := v]) (ints h1), out))))"

text \<open>
  \<^verbatim>\<open>process_lung_regions\<close> (lines 59 to 118) on handles: there is no clone, the loop
  of lines 104 to 111 writes \<^verbatim>\<open>label_image(i, j) = 0\<close> through the handle it was given,
  and line 115 returns that same handle as \<^verbatim>\<open>processed_image\<close>. Every \<^verbatim>\<open>Rcpp::stop\<close>
  comes before the first write.
\<close>

definition process_lung_regions_call ::
  "heap \<Rightarrow> nat \<Rightarrow> nat \<Rightarrow> error + heap \<times> nat \<times> int list \<times> bool" where
  "process_lung_regions_call h label_image regions =
     (case process_lung_regions (ints h ! label_image) (ints h ! regions) of
        Inl e \<Rightarrow> Inl e
      | Inr (img, top_two_labels, warned) \<Rightarrow>
          Inr (Heap (reals h) ((ints h)[label_image := img]), label_image, top_two_labels, warned))"

section \<open>Specification vocabulary\<close>

text \<open>
  An R matrix holds exactly \<open>nrow * ncol\<close> values; the datatype above does not enforce
  it, so theorems about matrices assume it.
\<close>

definition wf_matrix :: "'a matrix \<Rightarrow> bool" where
  "wf_matrix M \<longleftrightarrow> 0 \<le> nrow M \<and> 0 \<le> ncol M \<and> length (elems M) = nat (nrow M * ncol M)"

text \<open>The pixels of a label grid that carry a given label, as (row, column) pairs.\<close>

definition pixels_of :: "int matrix \<Rightarrow> int \<Rightarrow> (int \<times> int) set" where
  "pixels_of img L = {(i, j). in_bounds img i j \<and> cell img i j = L}"

text \<open>
  The invariant of the bounding-box scan after the cells \<open>D\<close>, and the row of the
  result for one label; both are used in the proofs only.
\<close>

definition bbox_inv :: "int matrix \<Rightarrow> int \<Rightarrow> (int \<times> int) set \<Rightarrow> int \<times> int \<times> int \<times> int \<Rightarrow> bool" where
  "bbox_inv img L D st \<longleftrightarrow>
     (case st of (x0, x1, y0, y1) \<Rightarrow>
        if D \<inter> {(i, j). cell img i j = L} = {} then st = (nrow img, - 1, ncol img, - 1)
        else (\<forall>p \<in> D \<inter> {(i, j). cell img i j = L}. x0 \<le> fst p \<and> fst p \<le> x1 \<and> y0 \<le> snd p \<and> snd p \<le> y1) \<and>
             (\<exists>p \<in> D \<inter> {(i, j). cell img i j = L}. fst p = x0) \<and>
             (\<exists>p \<in> D \<inter> {(i, j). cell img i j = L}. fst p = x1) \<and>
             (\<exists>p \<in> D \<inter> {(i, j). cell img i j = L}. snd p = y0) \<and>
             (\<exists>p \<in> D \<inter> {(i, j). cell img i j = L}. snd p = y1))"

definition bbox_row :: "int matrix \<Rightarrow> int \<Rightarrow> int \<times> int \<times> int \<times> int" where
  "bbox_row B r = (cell B r 0, cell B r 1, cell B r 2, cell B r 3)"

text \<open>
  \<open>first_max_at f xs excl p\<close>: among the positions of \<open>xs\<close> outside \<open>excl\<close>,
  \<open>p\<close> is the first one where \<open>f\<close> is largest. The best candidate stands at the
  position \<open>p\<close> with \<open>first_max_at f xs {} p\<close>, the runner-up at the position \<open>r\<close>
  with \<open>first_max_at f xs {p} r\<close>.
\<close>

definition first_max_at :: "(int \<Rightarrow> int) \<Rightarrow> int list \<Rightarrow> nat set \<Rightarrow> nat \<Rightarrow> bool" where
  "first_max_at f xs excl p \<longleftrightarrow>
     p < length xs \<and> p \<notin> excl \<and>
     (\<forall>q < length xs. q \<notin> excl \<longrightarrow> f (xs ! q) \<le> f (xs ! p) \<and> (f (xs ! q) = f (xs ! p) \<longrightarrow> p \<le> q))"

text \<open>The invariant of the ranking scan after the candidates \<open>xs\<close> (proofs only).\<close>

definition top_two_inv :: "(int \<Rightarrow> int) \<Rightarrow> int list \<Rightarrow> int \<times> int \<times> int \<times> int \<Rightarrow> bool" where
  "top_two_inv f xs st \<longleftrightarrow>
     (case st of (a1, a2, l1, l2) \<Rightarrow>
        (xs = [] \<and> st = (- 1, - 1, - 1, - 1)) \<or>
        (\<exists>x. xs = [x] \<and> st = (f x, - 1, x, - 1)) \<or>
        (\<exists>p r. first_max_at f xs {} p \<and> first_max_at f xs {p} r \<and>
                st = (f (xs ! p), f (xs ! r), xs ! p, xs ! r)))"


text \<open>
  The values of a 32-bit \<^verbatim>\<open>int\<close>. A bounding-box table has four columns
  \<open>(x_min, x_max, y_min, y_max)\<close> of such values, and the two ranges of each row,
  \<open>x_max - x_min\<close> and \<open>y_max - y_min\<close>, are such values too. The tables that
  \<^verbatim>\<open>regionprops_bbox\<close> returns are of this kind: a row holds coordinates of the grid,
  or four times \<open>NA_INTEGER\<close>.
\<close>

definition int32 :: "int \<Rightarrow> bool" where
  "int32 v \<longleftrightarrow> - 2147483648 \<le> v \<and> v \<le> 2147483647"

definition bbox_table :: "int matrix \<Rightarrow> bool" where
  "bbox_table regions \<longleftrightarrow>
     wf_matrix regions \<and> ncol regions = 4 \<and>
     (\<forall>i j. in_bounds regions i j \<longrightarrow> int32 (cell regions i j)) \<and>
     (\<forall>i. 0 \<le> i \<and> i < nrow regions \<longrightarrow>
        int32 (cell regions i 1 - cell regions i 0) \<and>
        int32 (cell regions i 3 - cell regions i 2))"

text \<open>
  The extent test on the region table, and the pixel area of a label: the number of
  pixels of the grid that carry it.
\<close>

definition passes_extent :: "int matrix \<Rightarrow> int \<Rightarrow> bool" where
  "passes_extent regions l \<longleftrightarrow>
     cell regions (l - 1) 1 - cell regions (l - 1) 0 < 350 \<and>
     cell regions (l - 1) 3 - cell regions (l - 1) 2 < 350"

definition pixel_area :: "int matrix \<Rightarrow> int \<Rightarrow> int" where
  "pixel_area img l = int (card (pixels_of img l))"


text \<open>
  The recursive equations of the loops are unfolded by hand in the proofs, one iteration
  at a time.
\<close>

declare scan_up.simps [simp del] fill_span.simps [simp del] for_loop.simps [simp del]
  bwlabel_inner.simps [simp del] bwlabel_outer.simps [simp del]

text \<open>
  The outer loop of the flood filler is evaluated by its recursive equation.
\<close>

declare floodFill_loop.simps [code]

subsection \<open>Grids, adjacency and connectivity\<close>

text \<open>
  Cells of the raw array, by coordinates: \<open>inside\<close> is the index range of the grid,
  \<open>pixel m sz p\<close> the value \<^verbatim>\<open>m[p.x + p.y * size.x]\<close>. Two cells are adjacent when they
  share an edge; \<open>connected4 S p q\<close> holds when a path of adjacent cells of \<open>S\<close> leads
  from \<open>p\<close> to \<open>q\<close>. The cells the filler takes for part of the region are those that
  match the target value within the tolerance.
\<close>

definition inside :: "XYPoint \<Rightarrow> XYPoint \<Rightarrow> bool" where
  "inside sz p \<longleftrightarrow> 0 \<le> pt_x p \<and> pt_x p < pt_x sz \<and> 0 \<le> pt_y p \<and> pt_y p < pt_y sz"

definition pixel :: "'a list \<Rightarrow> XYPoint \<Rightarrow> XYPoint \<Rightarrow> 'a" where
  "pixel m sz p = m ! offset sz (pt_x p) (pt_y p)"

definition adjacent4 :: "XYPoint \<Rightarrow> XYPoint \<Rightarrow> bool" where
  "adjacent4 p q \<longleftrightarrow>
     (pt_x p = pt_x q \<and> \<bar>pt_y p - pt_y q\<bar> = 1) \<or> (pt_y p = pt_y q \<and> \<bar>pt_x p - pt_x q\<bar> = 1)"

definition connected4 :: "XYPoint set \<Rightarrow> XYPoint \<Rightarrow> XYPoint \<Rightarrow> bool" where
  "connected4 S p q \<longleftrightarrow> (p, q) \<in> {(a, b). a \<in> S \<and> b \<in> S \<and> adjacent4 a b}\<^sup>*"

definition target :: "int list \<Rightarrow> XYPoint \<Rightarrow> int \<Rightarrow> real \<Rightarrow> XYPoint set" where
  "target m sz tc tol = {p. inside sz p \<and> fabs_le (pixel m sz p) tc tol}"

definition matches :: "int list \<Rightarrow> XYPoint \<Rightarrow> int \<Rightarrow> real \<Rightarrow> int \<Rightarrow> int \<Rightarrow> bool" where
  "matches m sz tc tol x y \<longleftrightarrow> fabs_le (m ! offset sz x y) tc tol"

text \<open>
  The invariants of the flood filler (used in the proofs only). For the loop that paints
  one run of column \<open>x\<close> from \<open>y0\<close>: the seeds pushed so far lie in the two
  neighbouring columns next to a painted cell, and every matching neighbour of a painted
  cell has a pushed seed above it in its own run.
\<close>

definition covers :: "XYPoint list \<Rightarrow> int list \<Rightarrow> XYPoint \<Rightarrow> int \<Rightarrow> real \<Rightarrow> int \<Rightarrow> int \<Rightarrow> int \<Rightarrow> bool" where
  "covers new m sz tc tol c y0 y \<longleftrightarrow>
     (\<forall>y'. y0 \<le> y' \<and> y' < y \<and> matches m sz tc tol c y' \<longrightarrow>
        (\<exists>t \<in> set new. pt_x t = c \<and> pt_y t \<le> y' \<and>
           (\<forall>y''. pt_y t \<le> y'' \<and> y'' \<le> y' \<longrightarrow> matches m sz tc tol c y'')))"

definition pushed_ok :: "XYPoint list \<Rightarrow> int list \<Rightarrow> XYPoint \<Rightarrow> int \<Rightarrow> real \<Rightarrow> int \<Rightarrow> int \<Rightarrow> int \<Rightarrow> bool" where
  "pushed_ok new m sz tc tol x y0 y \<longleftrightarrow>
     (\<forall>t \<in> set new. (pt_x t = x - 1 \<or> pt_x t = x + 1) \<and> 0 \<le> pt_x t \<and> pt_x t < pt_x sz \<and>
        y0 \<le> pt_y t \<and> pt_y t < y \<and> matches m sz tc tol (pt_x t) (pt_y t))"

definition span_inv ::
  "int list \<Rightarrow> XYPoint \<Rightarrow> int \<Rightarrow> int \<Rightarrow> real \<Rightarrow> int \<Rightarrow> int \<Rightarrow> XYPoint list \<Rightarrow>
   int list \<Rightarrow> XYPoint list \<Rightarrow> bool \<Rightarrow> bool \<Rightarrow> int \<Rightarrow> bool" where
  "span_inv m0 sz tc rc tol x y0 s0 m s l r y \<longleftrightarrow>
     y0 \<le> y \<and> length m = length m0 \<and>
     (\<forall>p. inside sz p \<longrightarrow>
        pixel m sz p = (if pt_x p = x \<and> y0 \<le> pt_y p \<and> pt_y p < y then rc else pixel m0 sz p)) \<and>
     (\<forall>y'. y0 \<le> y' \<and> y' < y \<longrightarrow> y' < pt_y sz \<and> matches m0 sz tc tol x y') \<and>
     (\<exists>new. s = new @ s0 \<and> (y = y0 \<longrightarrow> new = []) \<and>
        pushed_ok new m0 sz tc tol x y0 y \<and>
        (0 < x \<longrightarrow> covers new m0 sz tc tol (x - 1) y0 y) \<and>
        (x < pt_x sz - 1 \<longrightarrow> covers new m0 sz tc tol (x + 1) y0 y)) \<and>
     (l \<longleftrightarrow> y0 < y \<and> 0 < x \<and> matches m0 sz tc tol (x - 1) (y - 1)) \<and>
     (r \<longleftrightarrow> y0 < y \<and> x < pt_x sz - 1 \<and> matches m0 sz tc tol (x + 1) (y - 1))"

text \<open>
  For the outer loop: painted cells are connected to the seed; each run of a column is
  painted as a whole; every unpainted matching cell next to a painted one (and the seed
  itself) has a seed on the stack above it in its run.
\<close>

definition vrun :: "XYPoint set \<Rightarrow> XYPoint \<Rightarrow> XYPoint \<Rightarrow> bool" where
  "vrun U t q \<longleftrightarrow>
     pt_x t = pt_x q \<and> pt_y t \<le> pt_y q \<and>
     (\<forall>y. pt_y t \<le> y \<and> y \<le> pt_y q \<longrightarrow> XYPoint (pt_x q) y \<in> U)"

definition painted :: "int list \<Rightarrow> int list \<Rightarrow> XYPoint \<Rightarrow> int \<Rightarrow> real \<Rightarrow> XYPoint set" where
  "painted m0 m sz tc tol = target m0 sz tc tol - target m sz tc tol"

definition fill_inv ::
  "int list \<Rightarrow> XYPoint \<Rightarrow> int \<Rightarrow> int \<Rightarrow> real \<Rightarrow> XYPoint \<Rightarrow> int list \<Rightarrow> XYPoint list \<Rightarrow> bool" where
  "fill_inv m0 sz tc rc tol seed m s \<longleftrightarrow>
     length m = length m0 \<and>
     (\<forall>p. inside sz p \<longrightarrow>
        (if p \<in> painted m0 m sz tc tol
         then pixel m sz p = rc \<and> connected4 (target m0 sz tc tol) seed p
         else pixel m sz p = pixel m0 sz p)) \<and>
     (\<forall>t \<in> set s. t \<in> target m0 sz tc tol \<and> connected4 (target m0 sz tc tol) seed t) \<and>
     (\<forall>p q. p \<in> painted m0 m sz tc tol \<and> q \<in> target m sz tc tol \<and> pt_x q = pt_x p
        \<longrightarrow> \<bar>pt_y q - pt_y p\<bar> \<noteq> 1) \<and>
     (\<forall>q. q \<in> target m sz tc tol \<and>
          (q = seed \<or> (\<exists>p \<in> painted m0 m sz tc tol. pt_y p = pt_y q \<and> \<bar>pt_x p - pt_x q\<bar> = 1))
        \<longrightarrow> (\<exists>t \<in> set s. vrun (target m sz tc tol) t q))"

subsection \<open>Labelled rasters\<close>

text \<open>
  The foreground of a raw array is the set of its non-zero cells; \<open>scan_pos\<close> is the
  position of a cell in storage order, the order in which the labeller visits the cells.
  The invariant of the labeller (used in the proofs only): every visited cell is settled
  (zero stays zero, a non-zero cell carries a label below the next free one), a labelled
  cell shares its label exactly with the cells of its component, every label below the
  next free one is in use, and a smaller label always has a cell earlier than any cell of
  a larger label.
\<close>

definition foreground :: "'a::zero list \<Rightarrow> XYPoint \<Rightarrow> XYPoint set" where
  "foreground src sz = {p. inside sz p \<and> pixel src sz p \<noteq> 0}"

definition scan_pos :: "XYPoint \<Rightarrow> XYPoint \<Rightarrow> int" where
  "scan_pos sz p = pt_x p + pt_y p * pt_x sz"

definition labels_local :: "'a::zero list \<Rightarrow> XYPoint \<Rightarrow> int list \<Rightarrow> int \<Rightarrow> int \<Rightarrow> bool" where
  "labels_local src sz res pos idx \<longleftrightarrow>
     (\<forall>p. inside sz p \<longrightarrow>
        (pixel res sz p = 0 \<longleftrightarrow> pixel src sz p = 0) \<and>
        (pixel res sz p = - 1 \<or> (0 \<le> pixel res sz p \<and> pixel res sz p < idx)) \<and>
        (scan_pos sz p < pos \<longrightarrow> pixel res sz p \<noteq> - 1))"

definition labels_conn :: "'a::zero list \<Rightarrow> XYPoint \<Rightarrow> int list \<Rightarrow> bool" where
  "labels_conn src sz res \<longleftrightarrow>
     (\<forall>p q. p \<in> foreground src sz \<and> q \<in> foreground src sz \<and> pixel res sz p \<noteq> - 1 \<longrightarrow>
        (pixel res sz q = pixel res sz p \<longleftrightarrow> connected4 (foreground src sz) p q))"

definition labels_used :: "XYPoint \<Rightarrow> int list \<Rightarrow> int \<Rightarrow> int \<Rightarrow> bool" where
  "labels_used sz res pos idx \<longleftrightarrow>
     (\<forall>k. 1 \<le> k \<and> k < idx \<longrightarrow> (\<exists>p. inside sz p \<and> pixel res sz p = k \<and> scan_pos sz p < pos))"

definition labels_order :: "XYPoint \<Rightarrow> int list \<Rightarrow> bool" where
  "labels_order sz res \<longleftrightarrow>
     (\<forall>p q. inside sz p \<and> inside sz q \<and> 1 \<le> pixel res sz p \<and> pixel res sz p < pixel res sz q \<longrightarrow>
        (\<exists>p'. inside sz p' \<and> pixel res sz p' = pixel res sz p \<and> scan_pos sz p' < scan_pos sz q))"

definition label_inv :: "'a::zero list \<Rightarrow> XYPoint \<Rightarrow> int list \<Rightarrow> int \<Rightarrow> int \<Rightarrow> bool" where
  "label_inv src sz res pos idx \<longleftrightarrow>
     length res = nat (pt_x sz * pt_y sz) \<and> 1 \<le> idx \<and>
     labels_local src sz res pos idx \<and> labels_conn src sz res \<and>
     labels_used sz res pos idx \<and> labels_order sz res"

text \<open>
  The same notions on matrices: \<open>dims\<close> is the size record the functions pass to the
  raw routines, \<open>nonzero_pixels\<close> the foreground of an image, \<open>label_at\<close> a cell of a
  label matrix by its point. The \<open>components\<close> of a set of cells are the classes of
  \<open>connected4\<close>, and \<open>first_index xs k\<close> is the position of the first \<open>k\<close> in \<open>xs\<close>
  (the length of \<open>xs\<close> when there is none).
\<close>

definition dims :: "'a matrix \<Rightarrow> XYPoint" where
  "dims M = XYPoint (nrow M) (ncol M)"

definition nonzero_pixels :: "'a::zero matrix \<Rightarrow> XYPoint set" where
  "nonzero_pixels x = {p. inside (dims x) p \<and> cell x (pt_x p) (pt_y p) \<noteq> 0}"

definition label_at :: "int matrix \<Rightarrow> XYPoint \<Rightarrow> int" where
  "label_at L p = cell L (pt_x p) (pt_y p)"

definition components :: "XYPoint set \<Rightarrow> XYPoint set set" where
  "components S = {{q \<in> S. connected4 S p q} | p. p \<in> S}"

definition first_index :: "int list \<Rightarrow> int \<Rightarrow> nat" where
  "first_index xs k = length (takeWhile (\<lambda>v. v \<noteq> k) xs)"

text \<open>
  The border frame of a grid of size \<open>sz\<close>: the cells in the outer \<open>ext\<close> rows and
  columns on the four sides.
\<close>

definition frame :: "XYPoint \<Rightarrow> int \<Rightarrow> XYPoint set" where
  "frame sz ext = {p. inside sz p \<and>
     (pt_x p < ext \<or> pt_x sz - ext \<le> pt_x p \<or> pt_y p < ext \<or> pt_y sz - ext \<le> pt_y p)}"

section \<open>The collision guard\<close>

text \<open>
  Rounding to binary64 stays between two half-integers that enclose the exact value, as
  long as the value is below \<open>2 ^ 52\<close>: there the binary64 numbers include all multiples
  of one half.
\<close>

lemma pow2_pos: "0 < pow2 u"
  by (simp add: pow2_def)










section \<open>Loop rules\<close>

lemma for_loop_skip: "n \<le> lo \<Longrightarrow> for_loop lo n body s = s"
  by (simp add: for_loop.simps)

lemma for_loop_unfold: "lo < n \<Longrightarrow> for_loop lo n body s = for_loop (lo + 1) n body (body lo s)"
  by (subst for_loop.simps) simp

lemma for_loop_rule:
  assumes "I lo s"
    and "\<And>i s. lo \<le> i \<Longrightarrow> i < n \<Longrightarrow> I i s \<Longrightarrow> I (i + 1) (body i s)"
    and "lo \<le> n"
  shows "I n (for_loop lo n body s)"
  using assms
proof (induction lo n body s rule: for_loop.induct)
  case (1 i n body s)
  show ?case
  proof (cases "i < n")
    case True
    have "I n (for_loop (i + 1) n body (body i s))"
    proof (rule "1.IH"[OF True])
      show "I (i + 1) (body i s)" using "1.prems" True by simp
      show "\<And>j s. i + 1 \<le> j \<Longrightarrow> j < n \<Longrightarrow> I j s \<Longrightarrow> I (j + 1) (body j s)"
        using "1.prems"(2) by simp
      show "i + 1 \<le> n" using True by simp
    qed
    with True show ?thesis by (simp add: for_loop_unfold)
  next
    case False
    with "1.prems" have "i = n" by simp
    with "1.prems" show ?thesis by (simp add: for_loop_skip)
  qed
qed

lemma for_cells_rule:
  assumes init: "P {} s"
    and step: "\<And>i j D s. 0 \<le> i \<Longrightarrow> i < nr \<Longrightarrow> 0 \<le> j \<Longrightarrow> j < nc \<Longrightarrow> (i, j) \<notin> D \<Longrightarrow>
                 D \<subseteq> {0..<nr} \<times> {0..<nc} \<Longrightarrow> P D s \<Longrightarrow> P (insert (i, j) D) (body i j s)"
  shows "P ({0..<nr} \<times> {0..<nc}) (for_loop 0 nr (\<lambda>i. for_loop 0 nc (body i)) s)"
proof (cases "0 \<le> nr")
  case False
  then show ?thesis using init by (simp add: for_loop_skip)
next
  case nr: True
  show ?thesis
  proof (cases "0 \<le> nc")
    case False
    then have "\<And>i. for_loop 0 nc (body i) = (\<lambda>s. s)" by (intro ext) (simp add: for_loop_skip)
    moreover have "for_loop 0 nr (\<lambda>i s. s) s = s"
      by (rule for_loop_rule[where I = "\<lambda>i s'. s' = s"]) (use nr in auto)
    ultimately show ?thesis using False init by simp
  next
    case nc: True
    have "P ({0..<nr} \<times> {0..<nc}) (for_loop 0 nr (\<lambda>i. for_loop 0 nc (body i)) s)"
    proof (rule for_loop_rule[where I = "\<lambda>i s. P ({0..<i} \<times> {0..<nc}) s"])
      show "P ({0..<0} \<times> {0..<nc}) s" using init by simp
      show "0 \<le> nr" by (rule nr)
    next
      fix i s'
      assume i: "0 \<le> i" "i < nr" and P: "P ({0..<i} \<times> {0..<nc}) s'"
      have "P ({0..<i} \<times> {0..<nc} \<union> {i} \<times> {0..<nc}) (for_loop 0 nc (body i) s')"
      proof (rule for_loop_rule[where I = "\<lambda>j s. P ({0..<i} \<times> {0..<nc} \<union> {i} \<times> {0..<j}) s"])
        show "P ({0..<i} \<times> {0..<nc} \<union> {i} \<times> {0..<0}) s'" using P by simp
        show "0 \<le> nc" by (rule nc)
      next
        fix j s''
        assume j: "0 \<le> j" "j < nc" and P': "P ({0..<i} \<times> {0..<nc} \<union> {i} \<times> {0..<j}) s''"
        have "P (insert (i, j) ({0..<i} \<times> {0..<nc} \<union> {i} \<times> {0..<j})) (body i j s'')"
          using i j by (intro step P') auto
        moreover have "insert (i, j) ({0..<i} \<times> {0..<nc} \<union> {i} \<times> {0..<j})
                       = {0..<i} \<times> {0..<nc} \<union> {i} \<times> {0..<j + 1}"
          using j by auto
        ultimately show "P ({0..<i} \<times> {0..<nc} \<union> {i} \<times> {0..<j + 1}) (body i j s'')" by simp
      qed
      moreover have "{0..<i} \<times> {0..<nc} \<union> {i} \<times> {0..<nc} = {0..<i + 1} \<times> {0..<nc}"
        using i by auto
      ultimately show "P ({0..<i + 1} \<times> {0..<nc}) (for_loop 0 nc (body i) s')" by simp
    qed
    then show ?thesis .
  qed
qed

lemma for_each_rule_gen:
  assumes "P D s" "distinct xs" "D \<inter> set xs = {}"
    and step: "\<And>x D' s. x \<in> set xs \<Longrightarrow> x \<notin> D' \<Longrightarrow> D' \<subseteq> D \<union> set xs \<Longrightarrow> P D' s \<Longrightarrow>
                 (case f x s of Inl e \<Rightarrow> Q e | Inr s' \<Rightarrow> P (insert x D') s')"
  shows "case for_each f xs s of Inl e \<Rightarrow> Q e | Inr s' \<Rightarrow> P (D \<union> set xs) s'"
  using assms
proof (induction xs arbitrary: D s)
  case Nil
  then show ?case by simp
next
  case (Cons a xs)
  have a: "case f a s of Inl e \<Rightarrow> Q e | Inr s' \<Rightarrow> P (insert a D) s'"
    using Cons.prems(1,3) by (intro Cons.prems(4)) auto
  show ?case
  proof (cases "f a s")
    case (Inl e)
    with a show ?thesis by simp
  next
    case (Inr s')
    with a have P': "P (insert a D) s'" by simp
    have "case for_each f xs s' of Inl e \<Rightarrow> Q e | Inr s'' \<Rightarrow> P (insert a D \<union> set xs) s''"
    proof (rule Cons.IH[OF P'])
      show "distinct xs" using Cons.prems(2) by simp
      show "insert a D \<inter> set xs = {}" using Cons.prems(2,3) by auto
    next
      fix x D' s
      assume "x \<in> set xs" "x \<notin> D'" "D' \<subseteq> insert a D \<union> set xs" "P D' s"
      then show "case f x s of Inl e \<Rightarrow> Q e | Inr s' \<Rightarrow> P (insert x D') s'"
        by (intro Cons.prems(4)) auto
    qed
    moreover have "insert a D \<union> set xs = D \<union> set (a # xs)" by simp
    ultimately have "case for_each f xs s' of Inl e \<Rightarrow> Q e | Inr s'' \<Rightarrow> P (D \<union> set (a # xs)) s''"
      by (rule back_subst[where P = "\<lambda>A. case for_each f xs s' of Inl e \<Rightarrow> Q e | Inr s'' \<Rightarrow> P A s''"])
    with Inr show ?thesis by simp
  qed
qed

lemma for_each_rule:
  assumes "P {} s" "distinct xs"
    and "\<And>x D s. x \<in> set xs \<Longrightarrow> x \<notin> D \<Longrightarrow> D \<subseteq> set xs \<Longrightarrow> P D s \<Longrightarrow>
                 (case f x s of Inl e \<Rightarrow> Q e | Inr s' \<Rightarrow> P (insert x D) s')"
  shows "case for_each f xs s of Inl e \<Rightarrow> Q e | Inr s' \<Rightarrow> P (set xs) s'"
proof -
  have "case for_each f xs s of Inl e \<Rightarrow> Q e | Inr s' \<Rightarrow> P ({} \<union> set xs) s'"
  proof (rule for_each_rule_gen[where P = P and D = "{}"])
    show "P {} s" by (rule assms(1))
    show "distinct xs" by (rule assms(2))
    show "{} \<inter> set xs = {}" by simp
  next
    fix x D' s
    assume "x \<in> set xs" "x \<notin> D'" "D' \<subseteq> {} \<union> set xs" "P D' s"
    then show "case f x s of Inl e \<Rightarrow> Q e | Inr s' \<Rightarrow> P (insert x D') s'"
      by (intro assms(3)) auto
  qed
  then show ?thesis unfolding Un_empty_left .
qed

lemma for_each_cells_rule:
  assumes init: "P {} s"
    and step: "\<And>i j D s. 0 \<le> i \<Longrightarrow> i < nr \<Longrightarrow> 0 \<le> j \<Longrightarrow> j < nc \<Longrightarrow> (i, j) \<notin> D \<Longrightarrow>
                 D \<subseteq> {0..<nr} \<times> {0..<nc} \<Longrightarrow> P D s \<Longrightarrow>
                 (case body i j s of Inl e \<Rightarrow> Q e | Inr s' \<Rightarrow> P (insert (i, j) D) s')"
  shows "case for_each (\<lambda>i. for_each (body i) [0..nc - 1]) [0..nr - 1] s of
           Inl e \<Rightarrow> Q e | Inr s' \<Rightarrow> P ({0..<nr} \<times> {0..<nc}) s'"
proof -
  have rows: "set [0..nr - 1] = {0..<nr}" and cols: "set [0..nc - 1] = {0..<nc}" by auto
  have "case for_each (\<lambda>i. for_each (body i) [0..nc - 1]) [0..nr - 1] s of
           Inl e \<Rightarrow> Q e | Inr s' \<Rightarrow> P (set [0..nr - 1] \<times> {0..<nc}) s'"
  proof (rule for_each_rule[where P = "\<lambda>I s. P (I \<times> {0..<nc}) s"])
    show "P ({} \<times> {0..<nc}) s" using init by simp
    show "distinct [0..nr - 1]" by simp
  next
    fix i I s'
    assume i: "i \<in> set [0..nr - 1]" "i \<notin> I" "I \<subseteq> set [0..nr - 1]" and P: "P (I \<times> {0..<nc}) s'"
    have "case for_each (body i) [0..nc - 1] s' of
            Inl e \<Rightarrow> Q e | Inr s'' \<Rightarrow> P (I \<times> {0..<nc} \<union> {i} \<times> set [0..nc - 1]) s''"
    proof (rule for_each_rule[where P = "\<lambda>J s. P (I \<times> {0..<nc} \<union> {i} \<times> J) s"])
      show "P (I \<times> {0..<nc} \<union> {i} \<times> {}) s'" using P by simp
      show "distinct [0..nc - 1]" by simp
    next
      fix j J s''
      assume j: "j \<in> set [0..nc - 1]" "j \<notin> J" "J \<subseteq> set [0..nc - 1]"
        and P': "P (I \<times> {0..<nc} \<union> {i} \<times> J) s''"
      have "case body i j s'' of Inl e \<Rightarrow> Q e
            | Inr s' \<Rightarrow> P (insert (i, j) (I \<times> {0..<nc} \<union> {i} \<times> J)) s'"
        using i j by (intro step P') auto
      moreover have "insert (i, j) (I \<times> {0..<nc} \<union> {i} \<times> J) = I \<times> {0..<nc} \<union> {i} \<times> insert j J"
        by auto
      ultimately show "case body i j s'' of Inl e \<Rightarrow> Q e
            | Inr s' \<Rightarrow> P (I \<times> {0..<nc} \<union> {i} \<times> insert j J) s'"
        by (rule back_subst[where P = "\<lambda>A. case body i j s'' of Inl e \<Rightarrow> Q e | Inr s' \<Rightarrow> P A s'"])
    qed
    moreover have "I \<times> {0..<nc} \<union> {i} \<times> set [0..nc - 1] = insert i I \<times> {0..<nc}"
      unfolding cols by auto
    ultimately show "case for_each (body i) [0..nc - 1] s' of
            Inl e \<Rightarrow> Q e | Inr s'' \<Rightarrow> P (insert i I \<times> {0..<nc}) s''"
      by (rule back_subst[where P = "\<lambda>A. case for_each (body i) [0..nc - 1] s' of
            Inl e \<Rightarrow> Q e | Inr s'' \<Rightarrow> P A s''"])
  qed
  then show ?thesis unfolding rows .
qed

section \<open>Matrices\<close>

lemma nrow_put [simp]: "nrow (put M i j v) = nrow M"
  and ncol_put [simp]: "ncol (put M i j v) = ncol M"
  by (simp_all add: put_def)

lemma index_inj:
  fixes i j i' j' n :: int
  assumes "0 \<le> i" "i < n" "0 \<le> i'" "i' < n"
  shows "i + j * n = i' + j' * n \<longleftrightarrow> i = i' \<and> j = j'"
proof
  assume eq: "i + j * n = i' + j' * n"
  have "(i + j * n) mod n = i" "(i' + j' * n) mod n = i'" using assms by simp_all
  with eq have "i = i'" by simp
  moreover from eq this have "j * n = j' * n" by simp
  with assms have "j = j'" by simp
  ultimately show "i = i' \<and> j = j'" by simp
qed simp

lemma index_bound:
  fixes i j n k :: int
  assumes "0 \<le> i" "i < n" "0 \<le> j" "j < k"
  shows "i + j * n < n * k"
proof -
  have "j + 1 \<le> k" using assms by simp
  then have "(j + 1) * n \<le> k * n" using assms by (intro mult_right_mono) auto
  then show ?thesis using assms by (simp add: algebra_simps)
qed

lemma index_nonneg:
  fixes i j n :: int
  shows "0 \<le> i \<Longrightarrow> 0 \<le> j \<Longrightarrow> 0 \<le> n \<Longrightarrow> 0 \<le> i + j * n"
  by simp

lemma wf_put [simp]: "wf_matrix (put M i j v) = wf_matrix M"
  by (simp add: wf_matrix_def put_def)

lemma wf_new_matrix: "0 \<le> nr \<Longrightarrow> 0 \<le> nc \<Longrightarrow> wf_matrix (new_matrix nr nc v)"
  by (simp add: wf_matrix_def new_matrix_def)

lemma cell_put:
  assumes "wf_matrix M" "in_bounds M i j" "in_bounds M i' j'"
  shows "cell (put M i j v) i' j' = (if i = i' \<and> j = j' then v else cell M i' j')"
proof -
  have lt: "nat (i + j * nrow M) < length (elems M)"
    using assms index_bound[of i "nrow M" j "ncol M"] by (simp add: wf_matrix_def in_bounds_def)
  have "nat (i + j * nrow M) = nat (i' + j' * nrow M) \<longleftrightarrow> i = i' \<and> j = j'"
    using assms index_inj[of i "nrow M" i' j j'] by (simp add: in_bounds_def nat_eq_iff)
  with lt show ?thesis by (auto simp: cell_def put_def)
qed

lemma in_bounds_put [simp]: "in_bounds (put M i j v) a b = in_bounds M a b"
  by (simp add: in_bounds_def)

section \<open>The border frame\<close>

lemma for_each_store_ok:
  "list_all (\<lambda>ij. in_bounds M (fst ij) (snd ij)) xs \<Longrightarrow> \<exists>M'. for_each (\<lambda>ij. store_cell ij v) xs M = Inr M'"
proof (induction xs arbitrary: M)
  case Nil
  then show ?case by simp
next
  case (Cons a xs)
  then have "list_all (\<lambda>ij. in_bounds (put M (fst a) (snd a) v) (fst ij) (snd ij)) xs" by simp
  from Cons.IH[OF this] Cons.prems show ?case by (simp add: store_cell_def)
qed

lemma for_each_store_fail:
  "list_ex (\<lambda>ij. \<not> in_bounds M (fst ij) (snd ij)) xs \<Longrightarrow> for_each (\<lambda>ij. store_cell ij v) xs M = Inl OutOfBounds"
proof (induction xs arbitrary: M)
  case Nil
  then show ?case by simp
next
  case (Cons a xs)
  show ?case
  proof (cases "in_bounds M (fst a) (snd a)")
    case True
    with Cons.prems have "list_ex (\<lambda>ij. \<not> in_bounds (put M (fst a) (snd a) v) (fst ij) (snd ij)) xs" by simp
    from Cons.IH[OF this] True show ?thesis by (simp add: store_cell_def)
  next
    case False
    then show ?thesis by (simp add: store_cell_def)
  qed
qed

lemma border_accesses_iff:
  "(a, b) \<in> set (border_accesses nr nc ext) \<longleftrightarrow>
     (\<exists>i j. 0 \<le> i \<and> i < ext \<and> 0 \<le> j \<and> j < nc \<and> (a = i \<or> a = nr - i - 1) \<and> b = j) \<or>
     (\<exists>i j. 0 \<le> i \<and> i < ext \<and> 0 \<le> j \<and> j < nr \<and> a = j \<and> (b = i \<or> b = nc - i - 1))"
proof -
  have "(a, b) \<in> set (border_accesses nr nc ext) \<longleftrightarrow>
     (\<exists>i\<in>{0..ext - 1}. \<exists>j\<in>{0..nc - 1}. (a, b) = (i, j) \<or> (a, b) = (nr - i - 1, j)) \<or>
     (\<exists>i\<in>{0..ext - 1}. \<exists>j\<in>{0..nr - 1}. (a, b) = (j, i) \<or> (a, b) = (j, nc - i - 1))"
    unfolding border_accesses_def by simp
  also have "\<dots> \<longleftrightarrow> (\<exists>i j. 0 \<le> i \<and> i < ext \<and> 0 \<le> j \<and> j < nc \<and> (a = i \<or> a = nr - i - 1) \<and> b = j) \<or>
     (\<exists>i j. 0 \<le> i \<and> i < ext \<and> 0 \<le> j \<and> j < nr \<and> a = j \<and> (b = i \<or> b = nc - i - 1))"
    unfolding Bex_def atLeastAtMost_iff Pair_inject by (intro arg_cong2[where f="(\<or>)"] ex_cong1) auto 
  finally show ?thesis .
qed

lemma border_accesses_bottom:
  "0 \<le> i \<Longrightarrow> i < ext \<Longrightarrow> 0 \<le> j \<Longrightarrow> j < nc \<Longrightarrow> (nr - i - 1, j) \<in> set (border_accesses nr nc ext)"
  unfolding border_accesses_iff by blast

lemma border_accesses_right:
  "0 \<le> i \<Longrightarrow> i < ext \<Longrightarrow> 0 \<le> j \<Longrightarrow> j < nr \<Longrightarrow> (j, nc - i - 1) \<in> set (border_accesses nr nc ext)"
  unfolding border_accesses_iff by blast

lemma border_accesses_cases:
  assumes "(a, b) \<in> set (border_accesses nr nc ext)"
  shows "(0 \<le> a \<and> a < ext \<and> 0 \<le> b \<and> b < nc) \<or>
         (nr - ext \<le> a \<and> a < nr \<and> 0 \<le> b \<and> b < nc) \<or>
         (0 \<le> b \<and> b < ext \<and> 0 \<le> a \<and> a < nr) \<or>
         (nc - ext \<le> b \<and> b < nc \<and> 0 \<le> a \<and> a < nr)"
  using assms unfolding border_accesses_iff by (elim disjE exE conjE) simp_all

text \<open>
  Claim C10, as amended. Let \<open>buffer_size\<close> be an \<^verbatim>\<open>int\<close> below the largest one, so
  that \<^verbatim>\<open>int ext = buffer_size + 1\<close> of line 193 does not overflow. With
  \<open>buffer_size + 1\<close> at most the row count and the column count, every cell the two
  loops of the border frame write is inside the matrix and the construction succeeds.
  When \<open>buffer_size + 1\<close> exceeds the row count or the column count and the matrix has
  at least one row or one column, some iteration computes a negative index and the
  construction leaves the matrix.
\<close>

theorem border_frame_bounds:
  assumes "0 \<le> nr" "0 \<le> nc" "- 2147483648 \<le> buffer_size" "buffer_size < 2147483647"
  shows "(buffer_size + 1 \<le> min nr nc \<longrightarrow>
           list_all (\<lambda>ij. 0 \<le> fst ij \<and> fst ij < nr \<and> 0 \<le> snd ij \<and> snd ij < nc)
             (border_accesses nr nc (buffer_size + 1)) \<and>
           (\<exists>borders. border_frame nr nc (buffer_size + 1) = Inr borders)) \<and>
         ((nr < buffer_size + 1 \<or> nc < buffer_size + 1) \<and> (0 < nr \<or> 0 < nc) \<longrightarrow>
           list_ex (\<lambda>ij. fst ij < 0 \<or> snd ij < 0) (border_accesses nr nc (buffer_size + 1)) \<and>
           border_frame nr nc (buffer_size + 1) = Inl OutOfBounds)"
proof (intro conjI impI)
  assume le: "buffer_size + 1 \<le> min nr nc"
  show inb: "list_all (\<lambda>ij. 0 \<le> fst ij \<and> fst ij < nr \<and> 0 \<le> snd ij \<and> snd ij < nc)
             (border_accesses nr nc (buffer_size + 1))"
    unfolding list_all_iff using le by (auto dest!: border_accesses_cases)
  then have "list_all (\<lambda>ij. in_bounds (new_matrix nr nc False) (fst ij) (snd ij))
             (border_accesses nr nc (buffer_size + 1))"
    by (simp add: in_bounds_def new_matrix_def)
  then show "\<exists>borders. border_frame nr nc (buffer_size + 1) = Inr borders"
    unfolding border_frame_def by (rule for_each_store_ok)
next
  assume a: "(nr < buffer_size + 1 \<or> nc < buffer_size + 1) \<and> (0 < nr \<or> 0 < nc)"
  have "(- 1, 0) \<in> set (border_accesses nr nc (buffer_size + 1)) \<or>
        (0, - 1) \<in> set (border_accesses nr nc (buffer_size + 1))"
  proof (cases "0 < nr \<and> 0 < nc")
    case True
    show ?thesis
    proof (cases "nr < buffer_size + 1")
      case True
      with \<open>0 < nr \<and> 0 < nc\<close> have "(nr - nr - 1, 0) \<in> set (border_accesses nr nc (buffer_size + 1))"
        by (intro border_accesses_bottom) auto
      then show ?thesis by simp
    next
      case False
      with a \<open>0 < nr \<and> 0 < nc\<close> have "(0, nc - nc - 1) \<in> set (border_accesses nr nc (buffer_size + 1))"
        by (intro border_accesses_right) auto
      then show ?thesis by simp
    qed
  next
    case False
    show ?thesis
    proof (cases "0 < nc")
      case True
      with False a assms have "nr = 0" "0 < buffer_size + 1" by auto
      with True have "(nr - 0 - 1, 0) \<in> set (border_accesses nr nc (buffer_size + 1))"
        by (intro border_accesses_bottom) auto
      with \<open>nr = 0\<close> show ?thesis by simp
    next
      case F2: False
      with False a assms have "nc = 0" "0 < nr" "0 < buffer_size + 1" by auto
      then have "(0, nc - 0 - 1) \<in> set (border_accesses nr nc (buffer_size + 1))"
        by (intro border_accesses_right) auto
      with \<open>nc = 0\<close> show ?thesis by simp
    qed
  qed
  then show neg: "list_ex (\<lambda>ij. fst ij < 0 \<or> snd ij < 0) (border_accesses nr nc (buffer_size + 1))"
    unfolding list_ex_iff by force
  then have "list_ex (\<lambda>ij. \<not> in_bounds (new_matrix nr nc False) (fst ij) (snd ij))
               (border_accesses nr nc (buffer_size + 1))"
    unfolding list_ex_iff in_bounds_def by force
  then show "border_frame nr nc (buffer_size + 1) = Inl OutOfBounds"
    unfolding border_frame_def by (rule for_each_store_fail)
qed

text \<open>
  The claim as stated fails on the matrix with no rows and no columns: \<open>buffer_size + 1\<close>
  exceeds both counts, but no loop body runs, so no index is computed at all.
\<close>

theorem border_frame_empty_matrix:
  "(0::int) < 0 + 1 \<and> \<not> list_ex (\<lambda>ij. fst ij < 0 \<or> snd ij < 0) (border_accesses 0 0 (0 + 1))"
  by (simp add: border_accesses_def)

theorem border_frame_bounds_witness:
  "- 2147483648 \<le> (0 :: int) \<and> (0 :: int) < 2147483647 \<and>
   - 2147483648 \<le> (3 :: int) \<and> (3 :: int) < 2147483647 \<and>
   list_all (\<lambda>ij. 0 \<le> fst ij \<and> fst ij < 3 \<and> 0 \<le> snd ij \<and> snd ij < 3) (border_accesses 3 3 (0 + 1)) \<and>
   (\<exists>borders. border_frame 3 3 (0 + 1) = Inr borders) \<and>
   list_ex (\<lambda>ij. fst ij < 0 \<or> snd ij < 0) (border_accesses 3 3 (3 + 1)) \<and>
   border_frame 3 3 (3 + 1) = Inl OutOfBounds"
  using border_frame_bounds[of 3 3 0] border_frame_bounds[of 3 3 3] by simp


section \<open>Bounding boxes\<close>

lemma bbox_inv_step:
  assumes "0 \<le> i" "i < nrow img" "0 \<le> j" "j < ncol img" "(i, j) \<notin> D"
    and inv: "bbox_inv img L D (x0, x1, y0, y1)"
  shows "bbox_inv img L (insert (i, j) D)
           (if cell img i j = L
            then (if i < x0 then i else x0, if i > x1 then i else x1,
                  if j < y0 then j else y0, if j > y1 then j else y1)
            else (x0, x1, y0, y1))"
proof (cases "cell img i j = L")
  case False
  then have "insert (i, j) D \<inter> {(i, j). cell img i j = L} = D \<inter> {(i, j). cell img i j = L}"
    by auto
  with inv False show ?thesis by (simp add: bbox_inv_def)
next
  case True
  let ?S = "D \<inter> {(i, j). cell img i j = L}"
  have S': "insert (i, j) D \<inter> {(i, j). cell img i j = L} = insert (i, j) ?S"
    using True by auto
  show ?thesis
  proof (cases "?S = {}")
    case empty: True
    with inv have "x0 = nrow img" "x1 = - 1" "y0 = ncol img" "y1 = - 1"
      by (simp_all add: bbox_inv_def)
    with assms True empty show ?thesis unfolding bbox_inv_def S' by simp
  next
    case False
    with inv have b: "\<forall>p \<in> ?S. x0 \<le> fst p \<and> fst p \<le> x1 \<and> y0 \<le> snd p \<and> snd p \<le> y1"
      and e0: "\<exists>p \<in> ?S. fst p = x0" and e1: "\<exists>p \<in> ?S. fst p = x1"
      and e2: "\<exists>p \<in> ?S. snd p = y0" and e3: "\<exists>p \<in> ?S. snd p = y1"
      by (simp_all add: bbox_inv_def)
    have "\<forall>p \<in> insert (i, j) ?S.
            (if i < x0 then i else x0) \<le> fst p \<and> fst p \<le> (if i > x1 then i else x1) \<and>
            (if j < y0 then j else y0) \<le> snd p \<and> snd p \<le> (if j > y1 then j else y1)"
      using b by force
    moreover have "\<exists>p \<in> insert (i, j) ?S. fst p = (if i < x0 then i else x0)"
      using e0 by auto
    moreover have "\<exists>p \<in> insert (i, j) ?S. fst p = (if i > x1 then i else x1)"
      using e1 by auto
    moreover have "\<exists>p \<in> insert (i, j) ?S. snd p = (if j < y0 then j else y0)"
      using e2 by auto
    moreover have "\<exists>p \<in> insert (i, j) ?S. snd p = (if j > y1 then j else y1)"
      using e3 by auto
    ultimately show ?thesis unfolding bbox_inv_def S' using True by simp
  qed
qed

lemma bbox_scan_inv: "bbox_inv img L ({0..<nrow img} \<times> {0..<ncol img}) (bbox_scan img L)"
  unfolding bbox_scan_def
proof (rule for_cells_rule)
  show "bbox_inv img L {} (nrow img, - 1, ncol img, - 1)" by (simp add: bbox_inv_def)
next
  fix i j D and s :: "int \<times> int \<times> int \<times> int"
  assume a: "0 \<le> i" "i < nrow img" "0 \<le> j" "j < ncol img" "(i, j) \<notin> D" "bbox_inv img L D s"
  obtain x0 x1 y0 y1 where s: "s = (x0, x1, y0, y1)" by (cases s) auto
  from bbox_inv_step[OF a(1-5) a(6)[unfolded s]]
  show "bbox_inv img L (insert (i, j) D)
          (case s of (x_min, x_max, y_min, y_max) \<Rightarrow>
             if cell img i j = L
             then (if i < x_min then i else x_min, if x_max < i then i else x_max,
                   if j < y_min then j else y_min, if y_max < j then j else y_max)
             else (x_min, x_max, y_min, y_max))"
    by (simp add: s)
qed

lemma pixels_of_alt: "({0..<nrow img} \<times> {0..<ncol img}) \<inter> {(i, j). cell img i j = L} = pixels_of img L"
  by (auto simp: pixels_of_def in_bounds_def)

lemma bbox_scan_empty:
  "pixels_of img L = {} \<Longrightarrow> bbox_scan img L = (nrow img, - 1, ncol img, - 1)"
  using bbox_scan_inv[of img L] unfolding bbox_inv_def pixels_of_alt
  by (simp split: prod.splits)

lemma bbox_scan_nonempty:
  assumes "pixels_of img L \<noteq> {}" "bbox_scan img L = (x0, x1, y0, y1)"
  shows "(\<forall>p \<in> pixels_of img L. x0 \<le> fst p \<and> fst p \<le> x1 \<and> y0 \<le> snd p \<and> snd p \<le> y1) \<and>
         (\<exists>p \<in> pixels_of img L. fst p = x0) \<and> (\<exists>p \<in> pixels_of img L. fst p = x1) \<and>
         (\<exists>p \<in> pixels_of img L. snd p = y0) \<and> (\<exists>p \<in> pixels_of img L. snd p = y1)"
  using bbox_scan_inv[of img L] assms unfolding bbox_inv_def pixels_of_alt by simp

lemma bbox_scan_nonempty_max:
  assumes "pixels_of img L \<noteq> {}" "bbox_scan img L = (x0, x1, y0, y1)"
  shows "x1 \<noteq> - 1"
proof -
  from bbox_scan_nonempty[OF assms] obtain p where "p \<in> pixels_of img L" "fst p = x1" by blast
  then show ?thesis by (auto simp: pixels_of_def in_bounds_def)
qed

lemma bbox_row_write:
  assumes "wf_matrix B" "ncol B = 4" "0 \<le> r" "r < nrow B" "0 \<le> r'" "r' < nrow B"
  shows "bbox_row (put (put (put (put B r 0 a) r 1 b) r 2 c) r 3 d) r' =
           (if r' = r then (a, b, c, d) else bbox_row B r')"
  using assms by (simp add: bbox_row_def cell_put in_bounds_def)

lemma regionprops_bbox_rows:
  assumes "0 \<le> num_labels"
  shows "\<forall>l. 1 \<le> l \<and> l < num_labels + 1 \<longrightarrow>
           bbox_row (regionprops_bbox img num_labels) (l - 1) =
             (if pixels_of img l = {} then (NA_INTEGER, NA_INTEGER, NA_INTEGER, NA_INTEGER)
              else bbox_scan img l)"
proof -
  let ?row = "\<lambda>l. if pixels_of img l = {} then (NA_INTEGER, NA_INTEGER, NA_INTEGER, NA_INTEGER)
              else bbox_scan img l"
  let ?I = "\<lambda>label B. wf_matrix B \<and> nrow B = num_labels \<and> ncol B = 4 \<and>
              (\<forall>l. 1 \<le> l \<and> l < label \<longrightarrow> bbox_row B (l - 1) = ?row l)"
  have "?I (num_labels + 1) (regionprops_bbox img num_labels)"
    unfolding regionprops_bbox_def
  proof (rule for_loop_rule[where I = ?I])
    show "?I 1 (new_matrix num_labels 4 0)"
      using assms wf_new_matrix[of num_labels 4 "0::int"] by (auto simp: new_matrix_def)
    show "1 \<le> num_labels + 1" using assms by simp
  next
    fix label B
    assume l: "1 \<le> label" "label < num_labels + 1" and I: "?I label B"
    obtain x0 x1 y0 y1 where scan: "bbox_scan img label = (x0, x1, y0, y1)"
      by (cases "bbox_scan img label") auto
    let ?B' = "if x1 \<noteq> - 1
               then put (put (put (put B (label - 1) 0 x0) (label - 1) 1 x1) (label - 1) 2 y0) (label - 1) 3 y1
               else put (put (put (put B (label - 1) 0 NA_INTEGER) (label - 1) 1 NA_INTEGER)
                       (label - 1) 2 NA_INTEGER) (label - 1) 3 NA_INTEGER"
    have x1: "x1 \<noteq> - 1 \<longleftrightarrow> pixels_of img label \<noteq> {}"
      using scan bbox_scan_empty[of img label] bbox_scan_nonempty_max[of img label x0 x1 y0 y1]
      by auto
    have new: "bbox_row ?B' (label - 1) = ?row label"
      using I l x1 scan by (simp add: bbox_row_write)
    have old: "bbox_row ?B' (l - 1) = ?row l" if "1 \<le> l" "l < label" for l
      using I l that by (simp add: bbox_row_write)
    have "\<forall>l. 1 \<le> l \<and> l < label + 1 \<longrightarrow> bbox_row ?B' (l - 1) = ?row l"
    proof (intro allI impI)
      fix l assume "1 \<le> l \<and> l < label + 1"
      then have "l = label \<or> (1 \<le> l \<and> l < label)" by auto
      then show "bbox_row ?B' (l - 1) = ?row l" using new old by blast
    qed
    moreover have "wf_matrix ?B' \<and> nrow ?B' = num_labels \<and> ncol ?B' = 4" using I by simp
    ultimately show "?I (label + 1)
       (case bbox_scan img label of
          (x_min, x_max, y_min, y_max) \<Rightarrow>
            if x_max \<noteq> - 1
            then put (put (put (put B (label - 1) 0 x_min) (label - 1) 1 x_max)
                       (label - 1) 2 y_min) (label - 1) 3 y_max
            else put (put (put (put B (label - 1) 0 NA_INTEGER) (label - 1) 1 NA_INTEGER)
                       (label - 1) 2 NA_INTEGER) (label - 1) 3 NA_INTEGER)"
      unfolding scan by simp
  qed
  then show ?thesis by simp
qed

text \<open>
  Claim C5. For a label \<open>L\<close> from 1 to \<open>num_labels\<close>, row \<open>L - 1\<close> of the result of
  \<^verbatim>\<open>regionprops_bbox\<close> holds \<open>(row_min, row_max, col_min, col_max)\<close>. When some
  pixel carries \<open>L\<close>, every such pixel lies within the four bounds and each bound is
  attained by a pixel of \<open>L\<close>; when none does, all four fields are \<open>NA_INTEGER\<close>.
\<close>

theorem regionprops_bbox_contains_minimal:
  assumes "1 \<le> L" "L \<le> num_labels"
  shows "(pixels_of img L \<noteq> {} \<longrightarrow>
            (\<forall>p \<in> pixels_of img L.
               cell (regionprops_bbox img num_labels) (L - 1) 0 \<le> fst p \<and>
               fst p \<le> cell (regionprops_bbox img num_labels) (L - 1) 1 \<and>
               cell (regionprops_bbox img num_labels) (L - 1) 2 \<le> snd p \<and>
               snd p \<le> cell (regionprops_bbox img num_labels) (L - 1) 3) \<and>
            (\<exists>p \<in> pixels_of img L. fst p = cell (regionprops_bbox img num_labels) (L - 1) 0) \<and>
            (\<exists>p \<in> pixels_of img L. fst p = cell (regionprops_bbox img num_labels) (L - 1) 1) \<and>
            (\<exists>p \<in> pixels_of img L. snd p = cell (regionprops_bbox img num_labels) (L - 1) 2) \<and>
            (\<exists>p \<in> pixels_of img L. snd p = cell (regionprops_bbox img num_labels) (L - 1) 3)) \<and>
         (pixels_of img L = {} \<longrightarrow>
            cell (regionprops_bbox img num_labels) (L - 1) 0 = NA_INTEGER \<and>
            cell (regionprops_bbox img num_labels) (L - 1) 1 = NA_INTEGER \<and>
            cell (regionprops_bbox img num_labels) (L - 1) 2 = NA_INTEGER \<and>
            cell (regionprops_bbox img num_labels) (L - 1) 3 = NA_INTEGER)"
proof -
  let ?B = "regionprops_bbox img num_labels"
  have row: "bbox_row ?B (L - 1) =
             (if pixels_of img L = {} then (NA_INTEGER, NA_INTEGER, NA_INTEGER, NA_INTEGER)
              else bbox_scan img L)"
    using regionprops_bbox_rows[of num_labels img] assms by simp
  show ?thesis
  proof (cases "pixels_of img L = {}")
    case True
    with row show ?thesis by (simp add: bbox_row_def)
  next
    case False
    with row have "bbox_scan img L = (cell ?B (L - 1) 0, cell ?B (L - 1) 1, cell ?B (L - 1) 2, cell ?B (L - 1) 3)"
      by (simp add: bbox_row_def)
    from bbox_scan_nonempty[OF False this] False show ?thesis by simp
  qed
qed

theorem regionprops_bbox_witness:
  "(0, 0) \<in> pixels_of (Matrix 1 1 [1]) 1 \<and>
   cell (regionprops_bbox (Matrix 1 1 [1]) 2) 0 0 \<le> 0 \<and>
   0 \<le> cell (regionprops_bbox (Matrix 1 1 [1]) 2) 0 1 \<and>
   pixels_of (Matrix 1 1 [1]) 2 = {} \<and>
   cell (regionprops_bbox (Matrix 1 1 [1]) 2) 1 0 = NA_INTEGER \<and>
   cell (regionprops_bbox (Matrix 1 1 [1]) 2) 1 3 = NA_INTEGER"
proof -
  have a: "(0, 0) \<in> pixels_of (Matrix 1 1 [1]) 1"
    by (simp add: pixels_of_def in_bounds_def cell_def)
  have b: "pixels_of (Matrix 1 1 [1]) 2 = {}"
    by (auto simp: pixels_of_def in_bounds_def cell_def)
  from a have ne: "pixels_of (Matrix 1 1 [1]) 1 \<noteq> {}" by blast
  from regionprops_bbox_contains_minimal[of 1 2 "Matrix 1 1 [1]"] ne a
  have "cell (regionprops_bbox (Matrix 1 1 [1]) 2) 0 0 \<le> 0 \<and>
        0 \<le> cell (regionprops_bbox (Matrix 1 1 [1]) 2) 0 1" by force
  moreover from regionprops_bbox_contains_minimal[of 2 2 "Matrix 1 1 [1]"] b
  have "cell (regionprops_bbox (Matrix 1 1 [1]) 2) 1 0 = NA_INTEGER \<and>
        cell (regionprops_bbox (Matrix 1 1 [1]) 2) 1 3 = NA_INTEGER" by simp
  ultimately show ?thesis using a b by simp
qed

section \<open>The dominant-region selector\<close>

lemma first_max_snoc_new:
  assumes "first_max_at f xs {} p" "f (xs ! p) < f x"
  shows "first_max_at f (xs @ [x]) {} (length xs)" "first_max_at f (xs @ [x]) {length xs} p"
  using assms unfolding first_max_at_def
  by (auto simp: nth_append less_Suc_eq dest: spec)

lemma first_max_snoc_second:
  assumes "first_max_at f xs {} p" "first_max_at f xs {p} r" "\<not> f (xs ! p) < f x" "f (xs ! r) < f x"
  shows "first_max_at f (xs @ [x]) {} p" "first_max_at f (xs @ [x]) {p} (length xs)"
  using assms unfolding first_max_at_def
  by (auto simp: nth_append less_Suc_eq)

lemma first_max_snoc_keep:
  assumes "first_max_at f xs {} p" "first_max_at f xs {p} r" "\<not> f (xs ! p) < f x" "\<not> f (xs ! r) < f x"
  shows "first_max_at f (xs @ [x]) {} p" "first_max_at f (xs @ [x]) {p} r"
  using assms unfolding first_max_at_def
  by (auto simp: nth_append less_Suc_eq)

lemma first_max_pair:
  "f y < f x \<Longrightarrow> first_max_at f [y, x] {} 1 \<and> first_max_at f [y, x] {1} 0"
  "\<not> f y < f x \<Longrightarrow> first_max_at f [y, x] {} 0 \<and> first_max_at f [y, x] {0} 1"
  unfolding first_max_at_def by (auto simp: less_Suc_eq nth_Cons')

lemma top_two_invI:
  "first_max_at f xs {} p \<Longrightarrow> first_max_at f xs {p} r \<Longrightarrow>
   st = (f (xs ! p), f (xs ! r), xs ! p, xs ! r) \<Longrightarrow> top_two_inv f xs st"
  unfolding top_two_inv_def by (simp only: prod.case) blast

lemma top_two_scan:
  assumes "\<forall>l \<in> set xs. 0 \<le> areas ! nat (l - 1)"
  shows "top_two_inv (\<lambda>l. areas ! nat (l - 1)) xs (fold (top_two_step areas) xs (- 1, - 1, - 1, - 1))"
  using assms
proof (induction xs rule: rev_induct)
  case Nil
  then show ?case by (simp add: top_two_inv_def)
next
  case (snoc x xs)
  let ?f = "\<lambda>l. areas ! nat (l - 1)"
  let ?st = "fold (top_two_step areas) xs (- 1, - 1, - 1, - 1)"
  have inv: "top_two_inv ?f xs ?st" using snoc by simp
  have fx: "0 \<le> ?f x" using snoc.prems by simp
  have fold: "fold (top_two_step areas) (xs @ [x]) (- 1, - 1, - 1, - 1) = top_two_step areas x ?st"
    by simp
  obtain a1 a2 l1 l2 where st: "?st = (a1, a2, l1, l2)" by (cases ?st) auto
  from inv st consider
      (empty) "xs = []" "a1 = - 1" "a2 = - 1" "l1 = - 1" "l2 = - 1"
    | (single) y where "xs = [y]" "a1 = ?f y" "a2 = - 1" "l1 = y" "l2 = - 1"
    | (many) p r where "first_max_at ?f xs {} p" "first_max_at ?f xs {p} r"
        "a1 = ?f (xs ! p)" "a2 = ?f (xs ! r)" "l1 = xs ! p" "l2 = xs ! r"
    unfolding top_two_inv_def by auto
  then show ?case
  proof cases
    case empty
    with fx st show ?thesis unfolding fold top_two_inv_def top_two_step_def by simp
  next
    case single
    have n: "(xs @ [x]) ! 1 = x" "(xs @ [x]) ! 0 = y" using single by simp_all
    have xs2: "xs @ [x] = [y, x]" using single by simp
    show ?thesis
    proof (cases "?f y < ?f x")
      case True
      from first_max_pair(1)[of ?f y x] True
      have A: "first_max_at ?f (xs @ [x]) {} 1" "first_max_at ?f (xs @ [x]) {1} 0"
        unfolding xs2 by simp_all
      have B: "top_two_step areas x ?st =
                 (?f ((xs @ [x]) ! 1), ?f ((xs @ [x]) ! 0), (xs @ [x]) ! 1, (xs @ [x]) ! 0)"
        unfolding st n using True single(2-5) by (simp add: top_two_step_def)
      show ?thesis unfolding fold by (rule top_two_invI[OF A B])
    next
      case False
      from first_max_pair(2)[of ?f y x] False
      have A: "first_max_at ?f (xs @ [x]) {} 0" "first_max_at ?f (xs @ [x]) {0} 1"
        unfolding xs2 by simp_all
      have B: "top_two_step areas x ?st =
                 (?f ((xs @ [x]) ! 0), ?f ((xs @ [x]) ! 1), (xs @ [x]) ! 0, (xs @ [x]) ! 1)"
        unfolding st n using False single(2-5) fx by (simp add: top_two_step_def)
      show ?thesis unfolding fold by (rule top_two_invI[OF A B])
    qed
  next
    case many
    have p: "p < length xs" and r: "r < length xs"
      using many by (simp_all add: first_max_at_def)
    show ?thesis
    proof (cases "?f (xs ! p) < ?f x")
      case True
      from first_max_snoc_new[OF many(1) True]
      have A: "first_max_at ?f (xs @ [x]) {} (length xs)" "first_max_at ?f (xs @ [x]) {length xs} p" .
      have B: "top_two_step areas x ?st =
          (?f ((xs @ [x]) ! length xs), ?f ((xs @ [x]) ! p), (xs @ [x]) ! length xs, (xs @ [x]) ! p)"
        unfolding st using True many(3-6) p by (simp add: top_two_step_def nth_append)
      show ?thesis unfolding fold by (rule top_two_invI[OF A B])
    next
      case F1: False
      show ?thesis
      proof (cases "?f (xs ! r) < ?f x")
        case True
        from first_max_snoc_second[OF many(1,2) F1 True]
        have A: "first_max_at ?f (xs @ [x]) {} p" "first_max_at ?f (xs @ [x]) {p} (length xs)" .
        have B: "top_two_step areas x ?st =
          (?f ((xs @ [x]) ! p), ?f ((xs @ [x]) ! length xs), (xs @ [x]) ! p, (xs @ [x]) ! length xs)"
          unfolding st using True F1 many(3-6) p by (simp add: top_two_step_def nth_append)
        show ?thesis unfolding fold by (rule top_two_invI[OF A B])
      next
        case False
        from first_max_snoc_keep[OF many(1,2) F1 False]
        have A: "first_max_at ?f (xs @ [x]) {} p" "first_max_at ?f (xs @ [x]) {p} r" .
        have B: "top_two_step areas x ?st =
          (?f ((xs @ [x]) ! p), ?f ((xs @ [x]) ! r), (xs @ [x]) ! p, (xs @ [x]) ! r)"
          unfolding st using False F1 many(3-6) p r by (simp add: top_two_step_def nth_append)
        show ?thesis unfolding fold by (rule top_two_invI[OF A B])
      qed
    qed
  qed
qed

lemma filter_lung_regions_top_two:
  assumes len: "2 \<le> length valid_regions"
    and labels: "\<forall>l \<in> set valid_regions. 1 \<le> l \<and> l \<le> int (length region_areas)"
    and areas: "\<forall>l \<in> set valid_regions. 0 \<le> region_areas ! nat (l - 1)"
  shows "\<exists>p r. first_max_at (\<lambda>l. region_areas ! nat (l - 1)) valid_regions {} p \<and>
               first_max_at (\<lambda>l. region_areas ! nat (l - 1)) valid_regions {p} r \<and>
               filter_lung_regions valid_regions region_areas =
                 Inr ([valid_regions ! p, valid_regions ! r], False)"
proof -
  let ?f = "\<lambda>l. region_areas ! nat (l - 1)"
  from len have ne: "valid_regions \<noteq> []" by auto
  then obtain l0 where "l0 \<in> set valid_regions" by (cases valid_regions) auto
  with labels have ne': "region_areas \<noteq> []" by fastforce
  have nolx: "\<not> list_ex (\<lambda>label. label \<le> 0 \<or> label > int (length region_areas)) valid_regions"
    using labels unfolding list_ex_iff by fastforce
  from top_two_scan[OF areas] len obtain p r where
    pr: "first_max_at ?f valid_regions {} p" "first_max_at ?f valid_regions {p} r"
    and st: "fold (top_two_step region_areas) valid_regions (- 1, - 1, - 1, - 1) =
               (?f (valid_regions ! p), ?f (valid_regions ! r), valid_regions ! p, valid_regions ! r)"
    unfolding top_two_inv_def by (auto split: prod.splits)
  from pr have "valid_regions ! p \<in> set valid_regions" "valid_regions ! r \<in> set valid_regions"
    by (simp_all add: first_max_at_def)
  with labels have "valid_regions ! p \<noteq> - 1" "valid_regions ! r \<noteq> - 1" by fastforce+
  then have "filter_lung_regions valid_regions region_areas =
                 Inr ([valid_regions ! p, valid_regions ! r], False)"
    using ne ne' nolx st by (simp add: filter_lung_regions_def)
  with pr show ?thesis by blast
qed

lemma wrap32_int32: "int32 v \<Longrightarrow> wrap32 v = v"
  by (simp add: int32_def wrap32_def)

lemma extent_filter_code:
  "extent_filter regions =
     filter (\<lambda>l. wrap32 (cell regions (l - 1) 1 - cell regions (l - 1) 0) < 350 \<and>
                 wrap32 (cell regions (l - 1) 3 - cell regions (l - 1) 2) < 350) [1..nrow regions]"
proof (cases "0 \<le> nrow regions")
  case False
  then show ?thesis by (simp add: extent_filter_def for_loop_skip)
next
  case True
  let ?t = "\<lambda>l. wrap32 (cell regions (l - 1) 1 - cell regions (l - 1) 0) < 350 \<and>
                 wrap32 (cell regions (l - 1) 3 - cell regions (l - 1) 2) < 350"
  show ?thesis unfolding extent_filter_def
  proof (rule for_loop_rule[where I = "\<lambda>i v. v = filter ?t [1..i]"])
    show "[] = filter ?t [1..0]" by simp
    show "0 \<le> nrow regions" by (rule True)
  next
    fix i :: int and s :: "int list"
    assume i: "0 \<le> i" and s: "s = filter ?t [1..i]"
    have "[1..i + 1] = [1..i] @ [i + 1]" using i by (simp add: upto_rec2)
    then show "(let x_min = cell regions i 0; x_max = cell regions i 1; y_min = cell regions i 2;
                   y_max = cell regions i 3; x_range = wrap32 (x_max - x_min);
                   y_range = wrap32 (y_max - y_min)
               in if x_range < 350 \<and> y_range < 350 then s @ [i + 1] else s)
              = filter ?t [1..i + 1]"
      using s by (simp add: Let_def)
  qed
qed

lemma extent_filter_eq:
  assumes "bbox_table regions"
  shows "extent_filter regions = filter (passes_extent regions) [1..nrow regions]"
  unfolding extent_filter_code
proof (rule filter_cong[OF refl])
  fix l assume "l \<in> set [1..nrow regions]"
  then have "0 \<le> l - 1 \<and> l - 1 < nrow regions" by simp
  with assms have "int32 (cell regions (l - 1) 1 - cell regions (l - 1) 0)"
      "int32 (cell regions (l - 1) 3 - cell regions (l - 1) 2)"
    unfolding bbox_table_def by blast+
  then show "(wrap32 (cell regions (l - 1) 1 - cell regions (l - 1) 0) < 350 \<and>
              wrap32 (cell regions (l - 1) 3 - cell regions (l - 1) 2) < 350)
             = passes_extent regions l"
    by (simp add: wrap32_int32 passes_extent_def)
qed

lemma extent_filter_labels:
  "l \<in> set (extent_filter regions) \<Longrightarrow> 1 \<le> l \<and> l \<le> nrow regions"
  by (simp add: extent_filter_code)

lemma finite_cells: "D \<subseteq> {0..<nr::int} \<times> {0..<nc::int} \<Longrightarrow> finite D"
  by (rule finite_subset[where B = "{0..<nr} \<times> {0..<nc}"]) auto

lemma tally_areas_result:
  "case tally_areas img n of
     Inl e \<Rightarrow> e = Stop_label_too_large \<and> (\<exists>i j. in_bounds img i j \<and> n < cell img i j)
   | Inr areas \<Rightarrow> length areas = nat n \<and>
       (\<forall>l. 1 \<le> l \<and> l \<le> n \<longrightarrow> areas ! nat (l - 1) = pixel_area img l)"
proof -
  let ?P = "\<lambda>D areas. length areas = nat n \<and>
       (\<forall>l. 1 \<le> l \<and> l \<le> n \<longrightarrow> areas ! nat (l - 1) = int (card (D \<inter> {(i, j). cell img i j = l})))"
  let ?Q = "\<lambda>e. e = Stop_label_too_large \<and> (\<exists>i j. in_bounds img i j \<and> n < cell img i j)"
  have "case tally_areas img n of Inl e \<Rightarrow> ?Q e
        | Inr areas \<Rightarrow> ?P ({0..<nrow img} \<times> {0..<ncol img}) areas"
    unfolding tally_areas_def
  proof (rule for_each_cells_rule[where P = ?P and Q = ?Q])
    show "?P {} (replicate (nat n) 0)" by simp
  next
    fix i j D and areas :: "int list"
    assume ij: "0 \<le> i" "i < nrow img" "0 \<le> j" "j < ncol img" and notin: "(i, j) \<notin> D"
      and D: "D \<subseteq> {0..<nrow img} \<times> {0..<ncol img}" and P: "?P D areas"
    have fin: "finite D" using D by (rule finite_cells)
    let ?label = "cell img i j"
    show "case (let label = cell img i j
                in if label > 0
                   then (if label > n then Inl Stop_label_too_large
                         else Inr (areas[nat (label - 1) := areas ! nat (label - 1) + 1]))
                   else Inr areas) of
            Inl e \<Rightarrow> ?Q e | Inr s' \<Rightarrow> ?P (insert (i, j) D) s'"
    proof (cases "0 < ?label")
      case False
      have "insert (i, j) D \<inter> {(i, j). cell img i j = l} = D \<inter> {(i, j). cell img i j = l}"
        if "1 \<le> l" for l using False that by auto
      with P False show ?thesis by simp
    next
      case pos: True
      show ?thesis
      proof (cases "n < ?label")
        case True
        with pos ij show ?thesis by (auto simp: in_bounds_def)
      next
        case False
        have same: "insert (i, j) D \<inter> {(i, j). cell img i j = l} = D \<inter> {(i, j). cell img i j = l}"
          if "l \<noteq> ?label" for l using that by auto
        have new: "insert (i, j) D \<inter> {(i, j). cell img i j = ?label}
                   = insert (i, j) (D \<inter> {(i, j). cell img i j = ?label})" by auto
        have card: "card (insert (i, j) D \<inter> {(i, j). cell img i j = ?label})
                    = card (D \<inter> {(i, j). cell img i j = ?label}) + 1"
          unfolding new using fin notin by simp
        have idx: "nat (?label - 1) < length areas" using P pos False by simp
        have "?P (insert (i, j) D) (areas[nat (?label - 1) := areas ! nat (?label - 1) + 1])"
        proof (intro conjI allI impI)
          show "length (areas[nat (?label - 1) := areas ! nat (?label - 1) + 1]) = nat n"
            using P by simp
        next
          fix l assume l: "1 \<le> l \<and> l \<le> n"
          show "areas[nat (?label - 1) := areas ! nat (?label - 1) + 1] ! nat (l - 1)
                = int (card (insert (i, j) D \<inter> {(i, j). cell img i j = l}))"
          proof (cases "l = ?label")
            case True
            with idx card P l show ?thesis by simp
          next
            case False
            with l pos have "nat (?label - 1) \<noteq> nat (l - 1)" by auto
            with same[OF False] P l show ?thesis by simp
          qed
        qed
        with pos False show ?thesis by (simp add: Let_def)
      qed
    qed
  qed
  then show ?thesis unfolding pixel_area_def pixels_of_alt .
qed

lemma reset_others_cells:
  assumes "wf_matrix img"
  shows "wf_matrix (reset_others img kept) \<and> nrow (reset_others img kept) = nrow img \<and>
         ncol (reset_others img kept) = ncol img \<and>
         (\<forall>i j. in_bounds img i j \<longrightarrow>
            cell (reset_others img kept) i j =
              (if 0 < cell img i j \<and> cell img i j \<notin> set kept then 0 else cell img i j))"
proof -
  let ?g = "\<lambda>v. if 0 < v \<and> v \<notin> set kept then 0 else v"
  let ?P = "\<lambda>D img'. wf_matrix img' \<and> nrow img' = nrow img \<and> ncol img' = ncol img \<and>
              (\<forall>i j. in_bounds img i j \<longrightarrow>
                 cell img' i j = (if (i, j) \<in> D then ?g (cell img i j) else cell img i j))"
  have "?P ({0..<nrow img} \<times> {0..<ncol img}) (reset_others img kept)"
    unfolding reset_others_def
  proof (rule for_cells_rule[where P = ?P])
    show "?P {} img" using assms by simp
  next
    fix i j D img'
    assume ij: "0 \<le> i" "i < nrow img" "0 \<le> j" "j < ncol img" and notin: "(i, j) \<notin> D"
      and P: "?P D img'"
    have inb: "in_bounds img' i j" "in_bounds img i j" using ij P by (simp_all add: in_bounds_def)
    have cur: "cell img' i j = cell img i j" using P inb notin by simp
    have inb': "in_bounds img' a b = in_bounds img a b" for a b using P by (simp add: in_bounds_def)
    show "?P (insert (i, j) D)
            (let label = cell img' i j
             in if label > 0 \<and> label \<notin> set kept then put img' i j 0 else img')"
    proof (cases "0 < cell img i j \<and> cell img i j \<notin> set kept")
      case True
      then have "(let label = cell img' i j
             in if label > 0 \<and> label \<notin> set kept then put img' i j 0 else img') = put img' i j 0"
        by (simp add: cur)
      moreover have "?P (insert (i, j) D) (put img' i j 0)"
        using P True inb by (auto simp: cell_put inb')
      ultimately show ?thesis by simp
    next
      case False
      then have "(let label = cell img' i j
             in if label > 0 \<and> label \<notin> set kept then put img' i j 0 else img') = img'"
        by (auto simp add: cur)
      moreover have "?P (insert (i, j) D) img'"
        using P False cur by auto
      ultimately show ?thesis by simp
    qed
  qed
  then show ?thesis by (auto simp: in_bounds_def)
qed

lemma first_max_at_cong:
  assumes "\<forall>l \<in> set xs. f l = g l"
  shows "first_max_at f xs E p = first_max_at g xs E p"
  using assms unfolding first_max_at_def by (metis nth_mem)

lemma process_lung_regions_result:
  assumes wf: "wf_matrix label_image" and n: "0 < nrow regions"
    and valid: "\<forall>i j. in_bounds label_image i j \<longrightarrow> cell label_image i j \<le> nrow regions"
  shows "\<exists>kept. process_lung_regions label_image regions =
                  Inr (reset_others label_image kept, kept, False) \<and>
           (length (extent_filter regions) \<le> 2 \<longrightarrow> kept = extent_filter regions) \<and>
           (2 < length (extent_filter regions) \<longrightarrow>
              (\<exists>p r. first_max_at (pixel_area label_image) (extent_filter regions) {} p \<and>
                     first_max_at (pixel_area label_image) (extent_filter regions) {p} r \<and>
                     kept = [extent_filter regions ! p, extent_filter regions ! r]))"
proof -
  let ?cands = "extent_filter regions"
  from tally_areas_result[of label_image "nrow regions"] valid
  obtain areas where tally: "tally_areas label_image (nrow regions) = Inr areas"
    and len: "length areas = nat (nrow regions)"
    and areas: "\<forall>l. 1 \<le> l \<and> l \<le> nrow regions \<longrightarrow> areas ! nat (l - 1) = pixel_area label_image l"
    by (cases "tally_areas label_image (nrow regions)") (auto simp: not_less[symmetric])
  show ?thesis
  proof (cases "2 < length ?cands")
    case False
    with tally n show ?thesis by (simp add: process_lung_regions_def Let_def)
  next
    case True
    have labels: "\<forall>l \<in> set ?cands. 1 \<le> l \<and> l \<le> int (length areas)"
      using extent_filter_labels[of _ regions] len n by auto
    have eq: "\<forall>l \<in> set ?cands. areas ! nat (l - 1) = pixel_area label_image l"
      using extent_filter_labels[of _ regions] areas by blast
    then have nonneg: "\<forall>l \<in> set ?cands. 0 \<le> areas ! nat (l - 1)"
      by (simp add: pixel_area_def)
    from filter_lung_regions_top_two[OF _ labels nonneg] True
    obtain p r where pr: "first_max_at (\<lambda>l. areas ! nat (l - 1)) ?cands {} p"
        "first_max_at (\<lambda>l. areas ! nat (l - 1)) ?cands {p} r"
      and res: "filter_lung_regions ?cands areas = Inr ([?cands ! p, ?cands ! r], False)"
      by auto
    from pr have "first_max_at (pixel_area label_image) ?cands {} p"
        "first_max_at (pixel_area label_image) ?cands {p} r"
      using first_max_at_cong[OF eq] by simp_all
    with tally n True res show ?thesis by (auto simp: process_lung_regions_def Let_def)
  qed
qed

text \<open>
  Claim C4. On a label grid whose labels lie between 0 and the number of regions, with a
  non-empty bounding-box table (four columns of \<^verbatim>\<open>int\<close> values whose ranges are
  \<^verbatim>\<open>int\<close> values too), \<^verbatim>\<open>process_lung_regions\<close> returns normally; the kept list has
  at most two labels; in the returned grid a pixel keeps its label when the label is kept
  and is 0 otherwise. The candidate list holds, in increasing order, the labels whose two
  bounding-box ranges are below 350. When it has more than two entries, the kept list is
  \<open>[a, b]\<close> where \<open>a\<close> stands at the first position of the candidate list with the
  largest pixel area and \<open>b\<close> at the first position, other than that of \<open>a\<close>, with
  the largest pixel area among the remaining candidates; so the areas are in descending
  order and ties go to the candidate met first.
\<close>

theorem process_lung_regions_keeps_top_two:
  assumes wf: "wf_matrix label_image" and tab: "bbox_table regions" and n: "0 < nrow regions"
    and valid: "\<forall>i j. in_bounds label_image i j \<longrightarrow>
                  0 \<le> cell label_image i j \<and> cell label_image i j \<le> nrow regions"
  shows "\<exists>img' kept warned.
           process_lung_regions label_image regions = Inr (img', kept, warned) \<and>
           length kept \<le> 2 \<and>
           (\<forall>i j. in_bounds label_image i j \<longrightarrow>
              cell img' i j = (if cell label_image i j \<in> set kept then cell label_image i j else 0)) \<and>
           (2 < length (filter (passes_extent regions) [1..nrow regions]) \<longrightarrow>
              (\<exists>p r.
                 first_max_at (pixel_area label_image)
                   (filter (passes_extent regions) [1..nrow regions]) {} p \<and>
                 first_max_at (pixel_area label_image)
                   (filter (passes_extent regions) [1..nrow regions]) {p} r \<and>
                 kept = [filter (passes_extent regions) [1..nrow regions] ! p,
                         filter (passes_extent regions) [1..nrow regions] ! r] \<and>
                 pixel_area label_image (filter (passes_extent regions) [1..nrow regions] ! r)
                   \<le> pixel_area label_image (filter (passes_extent regions) [1..nrow regions] ! p)))"
proof -
  from valid have v: "\<forall>i j. in_bounds label_image i j \<longrightarrow> cell label_image i j \<le> nrow regions"
    by blast
  from process_lung_regions_result[OF wf n v] obtain kept where
    res: "process_lung_regions label_image regions = Inr (reset_others label_image kept, kept, False)"
    and few: "length (extent_filter regions) \<le> 2 \<longrightarrow> kept = extent_filter regions"
    and many: "2 < length (extent_filter regions) \<longrightarrow>
              (\<exists>p r. first_max_at (pixel_area label_image) (extent_filter regions) {} p \<and>
                     first_max_at (pixel_area label_image) (extent_filter regions) {p} r \<and>
                     kept = [extent_filter regions ! p, extent_filter regions ! r])"
    by blast
  have len: "length kept \<le> 2" using few many by (cases "2 < length (extent_filter regions)") auto
  have cells: "\<forall>i j. in_bounds label_image i j \<longrightarrow>
              cell (reset_others label_image kept) i j =
                (if cell label_image i j \<in> set kept then cell label_image i j else 0)"
    using reset_others_cells[OF wf, of kept] valid by (auto simp: order.order_iff_strict)
  have order: "pixel_area label_image (extent_filter regions ! r)
                 \<le> pixel_area label_image (extent_filter regions ! p)"
    if "first_max_at (pixel_area label_image) (extent_filter regions) {} p"
       "first_max_at (pixel_area label_image) (extent_filter regions) {p} r" for p r
    using that unfolding first_max_at_def by simp
  from res len cells many order show ?thesis unfolding extent_filter_eq[OF tab, symmetric] by blast
qed

text \<open>
  Claim C7 expects a soft warning when fewer than two regions pass the extent filter. The
  only call of \<^verbatim>\<open>Rcpp::warning\<close> is inside \<^verbatim>\<open>filter_lung_regions\<close>, which
  \<^verbatim>\<open>process_lung_regions\<close> calls only with more than two candidates. With one
  candidate, and with none, the function returns normally and no warning is raised.
\<close>

theorem process_lung_regions_never_warns:
  "process_lung_regions (Matrix 1 1 [1]) (Matrix 1 4 [0, 0, 0, 0]) = Inr (Matrix 1 1 [1], [1], False) \<and>
   process_lung_regions (Matrix 1 1 [1]) (Matrix 1 4 [0, 400, 0, 0]) = Inr (Matrix 1 1 [0], [], False)"
  by code_simp

theorem process_lung_regions_keeps_top_two_witness:
  "wf_matrix (Matrix 1 3 [3, 1, 3 :: int]) \<and>
   bbox_table (Matrix 3 4 [0, 0, 0, 0, 0, 0, 0, 0, 0, 0, 0, 0]) \<and>
   filter (passes_extent (Matrix 3 4 [0, 0, 0, 0, 0, 0, 0, 0, 0, 0, 0, 0]))
     [1..nrow (Matrix 3 4 [0, 0, 0, 0, 0, 0, 0, 0, 0, 0, 0, 0 :: int])] = [1, 2, 3] \<and>
   (\<exists>img' kept warned.
      process_lung_regions (Matrix 1 3 [3, 1, 3]) (Matrix 3 4 [0, 0, 0, 0, 0, 0, 0, 0, 0, 0, 0, 0])
        = Inr (img', kept, warned) \<and> length kept \<le> 2 \<and>
      (\<exists>p r. first_max_at (pixel_area (Matrix 1 3 [3, 1, 3])) [1, 2, 3] {} p \<and>
             first_max_at (pixel_area (Matrix 1 3 [3, 1, 3])) [1, 2, 3] {p} r \<and>
             kept = [[1, 2, 3] ! p, [1, 2, 3] ! r])) \<and>
   process_lung_regions (Matrix 1 3 [3, 1, 3]) (Matrix 3 4 [0, 0, 0, 0, 0, 0, 0, 0, 0, 0, 0, 0])
     = Inr (Matrix 1 3 [3, 1, 3], [3, 1], False)"
proof -
  let ?img = "Matrix 1 3 [3, 1, 3 :: int]"
  let ?reg = "Matrix 3 4 [0, 0, 0, 0, 0, 0, 0, 0, 0, 0, 0, 0 :: int]"
  have wf: "wf_matrix ?img" by (simp add: wf_matrix_def)
  have three: "i = 0 \<or> i = 1 \<or> i = 2" if "0 \<le> i" "i < 3" for i :: int using that by arith
  have entries: "int32 (cell ?reg i j)" if "in_bounds ?reg i j" for i j
  proof -
    from that have "i = 0 \<or> i = 1 \<or> i = 2" "j = 0 \<or> j = 1 \<or> j = 2 \<or> j = 3"
      by (auto simp: in_bounds_def)
    then show ?thesis by (elim disjE) (simp_all add: cell_def int32_def)
  qed
  have ranges: "int32 (cell ?reg i 1 - cell ?reg i 0) \<and> int32 (cell ?reg i 3 - cell ?reg i 2)"
    if "0 \<le> i \<and> i < nrow ?reg" for i
  proof -
    from that have "i = 0 \<or> i = 1 \<or> i = 2" using three[of i] by simp
    then show ?thesis by (elim disjE) (simp_all add: cell_def int32_def)
  qed
  have tab: "bbox_table ?reg"
    unfolding bbox_table_def using entries ranges by (simp add: wf_matrix_def)
  have n: "0 < nrow ?reg" by simp
  have valid: "\<forall>i j. in_bounds ?img i j \<longrightarrow> 0 \<le> cell ?img i j \<and> cell ?img i j \<le> nrow ?reg"
  proof (intro allI impI)
    fix i j assume "in_bounds ?img i j"
    then have "i = 0" "j = 0 \<or> j = 1 \<or> j = 2" by (auto simp: in_bounds_def)
    then show "0 \<le> cell ?img i j \<and> cell ?img i j \<le> nrow ?reg" by (auto simp: cell_def)
  qed
  have cands: "filter (passes_extent ?reg) [1..nrow ?reg] = [1, 2, 3]" by code_simp
  have ev: "process_lung_regions ?img ?reg = Inr (?img, [3, 1], False)" by code_simp
  have "\<exists>img' kept warned.
      process_lung_regions ?img ?reg = Inr (img', kept, warned) \<and> length kept \<le> 2 \<and>
      (\<exists>p r. first_max_at (pixel_area ?img) [1, 2, 3] {} p \<and>
             first_max_at (pixel_area ?img) [1, 2, 3] {p} r \<and>
             kept = [[1, 2, 3] ! p, [1, 2, 3] ! r])"
    using process_lung_regions_keeps_top_two[OF wf tab n valid, unfolded cands] by fastforce
  with wf tab cands ev show ?thesis by blast
qed

section \<open>The flood filler paints the connected component of its seed\<close>

lemma offset_inj:
  assumes "inside sz p" "inside sz q"
  shows "offset sz (pt_x p) (pt_y p) = offset sz (pt_x q) (pt_y q) \<longleftrightarrow> p = q"
proof -
  have "pt_x p + pt_y p * pt_x sz = pt_x q + pt_y q * pt_x sz \<longleftrightarrow> pt_x p = pt_x q \<and> pt_y p = pt_y q"
    using assms by (intro index_inj) (simp_all add: inside_def)
  moreover have "0 \<le> pt_x p + pt_y p * pt_x sz" "0 \<le> pt_x q + pt_y q * pt_x sz"
    using assms by (simp_all add: inside_def)
  ultimately have "offset sz (pt_x p) (pt_y p) = offset sz (pt_x q) (pt_y q)
                    \<longleftrightarrow> pt_x p = pt_x q \<and> pt_y p = pt_y q"
    unfolding offset_def by (simp add: nat_eq_iff)
  moreover have "pt_x p = pt_x q \<and> pt_y p = pt_y q \<longleftrightarrow> p = q"
    by (cases p; cases q) simp
  ultimately show ?thesis by simp
qed

lemma offset_less:
  assumes "inside sz p" "length m = nat (pt_x sz * pt_y sz)"
  shows "offset sz (pt_x p) (pt_y p) < length m"
  using assms index_bound[of "pt_x p" "pt_x sz" "pt_y p" "pt_y sz"]
  by (simp add: inside_def offset_def)

lemma pixel_update:
  assumes "length m = nat (pt_x sz * pt_y sz)" "inside sz p" "inside sz q"
  shows "pixel (m[offset sz (pt_x q) (pt_y q) := v]) sz p = (if p = q then v else pixel m sz p)"
  using offset_inj[OF assms(2,3)] offset_less[OF assms(3,1)] by (auto simp: pixel_def)

lemma finite_inside: "finite {p. inside sz p}"
proof -
  have "{p. inside sz p} \<subseteq> (\<lambda>(a, b). XYPoint a b) ` ({0..<pt_x sz} \<times> {0..<pt_y sz})"
  proof
    fix p assume "p \<in> {p. inside sz p}"
    then have "(pt_x p, pt_y p) \<in> {0..<pt_x sz} \<times> {0..<pt_y sz}" by (simp add: inside_def)
    then have "(\<lambda>(a, b). XYPoint a b) (pt_x p, pt_y p) \<in> (\<lambda>(a, b). XYPoint a b) ` ({0..<pt_x sz} \<times> {0..<pt_y sz})"
      by (rule imageI)
    then show "p \<in> (\<lambda>(a, b). XYPoint a b) ` ({0..<pt_x sz} \<times> {0..<pt_y sz})" by simp
  qed
  then show ?thesis by (rule finite_subset) simp
qed

lemma finite_target: "finite (target m sz tc tol)"
  by (rule finite_subset[OF _ finite_inside[of sz]]) (auto simp: target_def)

lemma matches_pixel: "matches m sz tc tol x y \<longleftrightarrow> fabs_le (pixel m sz (XYPoint x y)) tc tol"
  by (simp add: matches_def pixel_def)


lemma scan_up_le: "scan_up m sz tc tol x y \<le> y"
proof (induction m sz tc tol x y rule: scan_up.induct)
  case (1 m sz tc tol x y)
  show ?case
  proof (cases "0 \<le> y \<and> fabs_le (m ! offset sz x y) tc tol")
    case True
    then have "scan_up m sz tc tol x y = scan_up m sz tc tol x (y - 1)" by (subst scan_up.simps) simp
    moreover have "scan_up m sz tc tol x (y - 1) \<le> y - 1" using "1.IH" True by simp
    ultimately show ?thesis by simp
  next
    case False
    then have "scan_up m sz tc tol x y = y" by (subst scan_up.simps) auto
    then show ?thesis by simp
  qed
qed

lemma scan_up_matches:
  "scan_up m sz tc tol x y < y' \<Longrightarrow> y' \<le> y \<Longrightarrow> matches m sz tc tol x y'"
proof (induction m sz tc tol x y rule: scan_up.induct)
  case (1 m sz tc tol x y)
  show ?case
  proof (cases "0 \<le> y \<and> fabs_le (m ! offset sz x y) tc tol")
    case True
    then have eq: "scan_up m sz tc tol x y = scan_up m sz tc tol x (y - 1)" by (subst scan_up.simps) simp
    show ?thesis
    proof (cases "y' = y")
      case True
      with \<open>0 \<le> y \<and> fabs_le (m ! offset sz x y) tc tol\<close> show ?thesis by (simp add: matches_def)
    next
      case False
      with "1.prems" have "y' \<le> y - 1" by simp
      moreover have "scan_up m sz tc tol x (y - 1) < y'" using "1.prems" eq by simp
      ultimately show ?thesis using "1.IH" True by simp
    qed
  next
    case False
    then have "scan_up m sz tc tol x y = y" by (subst scan_up.simps) auto
    with "1.prems" show ?thesis by simp
  qed
qed

lemma scan_up_stop:
  "scan_up m sz tc tol x y < 0 \<or> \<not> matches m sz tc tol x (scan_up m sz tc tol x y)"
proof (induction m sz tc tol x y rule: scan_up.induct)
  case (1 m sz tc tol x y)
  show ?case
  proof (cases "0 \<le> y \<and> fabs_le (m ! offset sz x y) tc tol")
    case True
    then have eq: "scan_up m sz tc tol x y = scan_up m sz tc tol x (y - 1)" by (subst scan_up.simps) simp
    show ?thesis unfolding eq using "1.IH" True by simp
  next
    case False
    then have eq: "scan_up m sz tc tol x y = y" by (subst scan_up.simps) auto
    show ?thesis unfolding eq using False by (auto simp: matches_def)
  qed
qed

lemma scan_up_ge: "- 1 \<le> y \<Longrightarrow> - 1 \<le> scan_up m sz tc tol x y"
proof (induction m sz tc tol x y rule: scan_up.induct)
  case (1 m sz tc tol x y)
  show ?case
  proof (cases "0 \<le> y \<and> fabs_le (m ! offset sz x y) tc tol")
    case True
    then have eq: "scan_up m sz tc tol x y = scan_up m sz tc tol x (y - 1)" by (subst scan_up.simps) simp
    show ?thesis unfolding eq using "1.IH" True by simp
  next
    case False
    then have eq: "scan_up m sz tc tol x y = y" by (subst scan_up.simps) auto
    show ?thesis unfolding eq using "1.prems" by simp
  qed
qed

lemma scan_up_no_match: "\<not> matches m sz tc tol x y \<Longrightarrow> scan_up m sz tc tol x y = y"
  by (subst scan_up.simps) (simp add: matches_def)

lemma covers_mono:
  "covers new m sz tc tol c y0 y \<Longrightarrow> set new \<subseteq> set new' \<Longrightarrow> covers new' m sz tc tol c y0 y"
  unfolding covers_def by (meson subsetD)

lemma covers_skip:
  assumes "covers new m sz tc tol c y0 y" "\<not> matches m sz tc tol c y"
  shows "covers new m sz tc tol c y0 (y + 1)"
  unfolding covers_def
proof (intro allI impI)
  fix y' assume a: "y0 \<le> y' \<and> y' < y + 1 \<and> matches m sz tc tol c y'"
  with assms(2) have "y' < y" by (cases "y' = y") auto
  with a assms(1) show "\<exists>t\<in>set new. pt_x t = c \<and> pt_y t \<le> y' \<and>
           (\<forall>y''. pt_y t \<le> y'' \<and> y'' \<le> y' \<longrightarrow> matches m sz tc tol c y'')"
    unfolding covers_def by blast
qed

lemma covers_push:
  assumes "covers new m sz tc tol c y0 y" "matches m sz tc tol c y"
  shows "covers (XYPoint c y # new) m sz tc tol c y0 (y + 1)"
  unfolding covers_def
proof (intro allI impI)
  fix y' assume a: "y0 \<le> y' \<and> y' < y + 1 \<and> matches m sz tc tol c y'"
  show "\<exists>t\<in>set (XYPoint c y # new). pt_x t = c \<and> pt_y t \<le> y' \<and>
           (\<forall>y''. pt_y t \<le> y'' \<and> y'' \<le> y' \<longrightarrow> matches m sz tc tol c y'')"
  proof (cases "y' = y")
    case True
    have "pt_x (XYPoint c y) = c \<and> pt_y (XYPoint c y) \<le> y' \<and>
           (\<forall>y''. pt_y (XYPoint c y) \<le> y'' \<and> y'' \<le> y' \<longrightarrow> matches m sz tc tol c y'')"
      using True assms(2) by auto
    then show ?thesis by (meson list.set_intros(1))
  next
    case False
    with a have "y' < y" by simp
    moreover have "covers (XYPoint c y # new) m sz tc tol c y0 y"
      by (rule covers_mono[OF assms(1)]) auto
    ultimately show ?thesis using a unfolding covers_def by blast
  qed
qed

lemma covers_extend:
  assumes "covers new m sz tc tol c y0 y" "matches m sz tc tol c y" "y0 < y" "matches m sz tc tol c (y - 1)"
  shows "covers new m sz tc tol c y0 (y + 1)"
  unfolding covers_def
proof (intro allI impI)
  fix y' assume a: "y0 \<le> y' \<and> y' < y + 1 \<and> matches m sz tc tol c y'"
  show "\<exists>t\<in>set new. pt_x t = c \<and> pt_y t \<le> y' \<and>
           (\<forall>y''. pt_y t \<le> y'' \<and> y'' \<le> y' \<longrightarrow> matches m sz tc tol c y'')"
  proof (cases "y' = y")
    case True
    from assms(1,3,4) obtain t where t: "t \<in> set new" "pt_x t = c" "pt_y t \<le> y - 1"
        "\<forall>y''. pt_y t \<le> y'' \<and> y'' \<le> y - 1 \<longrightarrow> matches m sz tc tol c y''"
      unfolding covers_def by (metis diff_add_cancel zle_add1_eq_le zless_add1_eq)
    have "\<forall>y''. pt_y t \<le> y'' \<and> y'' \<le> y \<longrightarrow> matches m sz tc tol c y''"
    proof (intro allI impI)
      fix y'' assume "pt_y t \<le> y'' \<and> y'' \<le> y"
      then have "y'' = y \<or> (pt_y t \<le> y'' \<and> y'' \<le> y - 1)" by auto
      with t(4) assms(2) show "matches m sz tc tol c y''" by blast
    qed
    with t True show ?thesis by auto
  next
    case False
    with a have "y' < y" by simp
    with a assms(1) show ?thesis unfolding covers_def by blast
  qed
qed

lemma span_inv_current:
  assumes len: "length m0 = nat (pt_x sz * pt_y sz)" and x: "0 \<le> x" "x < pt_x sz" and y0: "0 \<le> y0"
    and inv: "span_inv m0 sz tc rc tol x y0 s0 m s l r y"
    and cond: "y < pt_y sz"
  shows "inside sz (XYPoint x y)" "fabs_le (m ! offset sz x y) tc tol = matches m0 sz tc tol x y"
proof -
  from inv have "y0 \<le> y" by (simp add: span_inv_def)
  with x y0 cond show ins: "inside sz (XYPoint x y)" by (simp add: inside_def)
  from inv ins have "pixel m sz (XYPoint x y) = pixel m0 sz (XYPoint x y)"
    unfolding span_inv_def by force
  then show "fabs_le (m ! offset sz x y) tc tol = matches m0 sz tc tol x y"
    by (simp add: pixel_def matches_def)
qed

lemma span_inv_neighbour:
  assumes len: "length m0 = nat (pt_x sz * pt_y sz)" and x: "0 \<le> x" "x < pt_x sz" and y0: "0 \<le> y0"
    and inv: "span_inv m0 sz tc rc tol x y0 s0 m s l r y"
    and cond: "y < pt_y sz"
    and c: "0 \<le> c" "c < pt_x sz" "c \<noteq> x"
  shows "fabs_le (m[offset sz x y := rc] ! offset sz c y) tc tol = matches m0 sz tc tol c y"
proof -
  from inv have yy: "y0 \<le> y" and lm: "length m = nat (pt_x sz * pt_y sz)"
    using len by (simp_all add: span_inv_def)
  have ins: "inside sz (XYPoint x y)" "inside sz (XYPoint c y)"
    using x y0 yy cond c by (simp_all add: inside_def)
  have "pixel (m[offset sz x y := rc]) sz (XYPoint c y) = pixel m sz (XYPoint c y)"
    using pixel_update[OF lm ins(2) ins(1), of rc] c by simp
  also have "\<dots> = pixel m0 sz (XYPoint c y)"
    using inv ins(2) c unfolding span_inv_def by force
  finally show ?thesis by (simp add: pixel_def matches_def)
qed

lemma span_branch:
  assumes "l \<longrightarrow> G" "G \<longrightarrow> b = L" "L \<longrightarrow> G"
  shows "(if \<not> l \<and> G \<and> b then (t # s, True)
          else if l \<and> G \<and> \<not> b then (s, False) else (s, l))
         = ((if \<not> l \<and> L then [t] else []) @ s, L)"
  using assms by auto

lemma span_inv_step:
  assumes len: "length m0 = nat (pt_x sz * pt_y sz)" and x: "0 \<le> x" "x < pt_x sz" and y0: "0 \<le> y0"
    and inv: "span_inv m0 sz tc rc tol x y0 s0 m s l r y"
    and cond: "y < pt_y sz" "matches m0 sz tc tol x y"
    and L: "L \<longleftrightarrow> 0 < x \<and> matches m0 sz tc tol (x - 1) y"
    and R: "R \<longleftrightarrow> x < pt_x sz - 1 \<and> matches m0 sz tc tol (x + 1) y"
  shows "span_inv m0 sz tc rc tol x y0 s0 (m[offset sz x y := rc])
           ((if \<not> r \<and> R then [XYPoint (x + 1) y] else []) @
            (if \<not> l \<and> L then [XYPoint (x - 1) y] else []) @ s) L R (y + 1)"
proof -
  let ?pl = "if \<not> l \<and> L then [XYPoint (x - 1) y] else []"
  let ?pr = "if \<not> r \<and> R then [XYPoint (x + 1) y] else []"
  from inv have yy: "y0 \<le> y" and lm: "length m = length m0"
    and px: "\<forall>p. inside sz p \<longrightarrow>
        pixel m sz p = (if pt_x p = x \<and> y0 \<le> pt_y p \<and> pt_y p < y then rc else pixel m0 sz p)"
    and run: "\<forall>y'. y0 \<le> y' \<and> y' < y \<longrightarrow> y' < pt_y sz \<and> matches m0 sz tc tol x y'"
    and lflag: "l \<longleftrightarrow> y0 < y \<and> 0 < x \<and> matches m0 sz tc tol (x - 1) (y - 1)"
    and rflag: "r \<longleftrightarrow> y0 < y \<and> x < pt_x sz - 1 \<and> matches m0 sz tc tol (x + 1) (y - 1)"
    by (simp_all add: span_inv_def)
  from inv obtain new where new: "s = new @ s0" "pushed_ok new m0 sz tc tol x y0 y"
      "0 < x \<longrightarrow> covers new m0 sz tc tol (x - 1) y0 y"
      "x < pt_x sz - 1 \<longrightarrow> covers new m0 sz tc tol (x + 1) y0 y"
    unfolding span_inv_def by blast
  have ins: "inside sz (XYPoint x y)" using x y0 yy cond by (simp add: inside_def)
  have lm': "length m = nat (pt_x sz * pt_y sz)" using lm len by simp
  let ?new = "?pr @ ?pl @ new"
  have 1: "y0 \<le> y + 1" using yy by simp
  have 2: "length (m[offset sz x y := rc]) = length m0" using lm by simp
  have 3: "\<forall>p. inside sz p \<longrightarrow> pixel (m[offset sz x y := rc]) sz p =
             (if pt_x p = x \<and> y0 \<le> pt_y p \<and> pt_y p < y + 1 then rc else pixel m0 sz p)"
  proof (intro allI impI)
    fix p assume p: "inside sz p"
    have "pixel (m[offset sz x y := rc]) sz p = (if p = XYPoint x y then rc else pixel m sz p)"
      using pixel_update[OF lm' p ins, of rc] by simp
    moreover have "p = XYPoint x y \<longleftrightarrow> pt_x p = x \<and> pt_y p = y" by (cases p) auto
    ultimately show "pixel (m[offset sz x y := rc]) sz p =
             (if pt_x p = x \<and> y0 \<le> pt_y p \<and> pt_y p < y + 1 then rc else pixel m0 sz p)"
      using px p yy by auto
  qed
  have 4: "\<forall>y'. y0 \<le> y' \<and> y' < y + 1 \<longrightarrow> y' < pt_y sz \<and> matches m0 sz tc tol x y'"
  proof (intro allI impI)
    fix y' assume "y0 \<le> y' \<and> y' < y + 1"
    then have "y' = y \<or> (y0 \<le> y' \<and> y' < y)" by auto
    with run cond show "y' < pt_y sz \<and> matches m0 sz tc tol x y'" by blast
  qed
  have 5: "?pr @ ?pl @ s = ?new @ s0" using new(1) by simp
  have 6: "pushed_ok ?new m0 sz tc tol x y0 (y + 1)"
  proof -
    have "pushed_ok new m0 sz tc tol x y0 (y + 1)"
      using new(2) unfolding pushed_ok_def by force
    moreover have "pushed_ok ?pl m0 sz tc tol x y0 (y + 1)"
      using L x yy unfolding pushed_ok_def by auto
    moreover have "pushed_ok ?pr m0 sz tc tol x y0 (y + 1)"
      using R x yy unfolding pushed_ok_def by auto
    ultimately show ?thesis unfolding pushed_ok_def by (metis Un_iff set_append)
  qed
  have 7: "covers ?new m0 sz tc tol (x - 1) y0 (y + 1)" if "0 < x"
  proof -
    from new(3) that have c: "covers new m0 sz tc tol (x - 1) y0 y" by simp
    show ?thesis
    proof (cases "matches m0 sz tc tol (x - 1) y")
      case False
      from covers_skip[OF c False] show ?thesis by (rule covers_mono) auto
    next
      case True
      show ?thesis
      proof (cases l)
        case True
        with lflag have "y0 < y" "matches m0 sz tc tol (x - 1) (y - 1)" by simp_all
        from covers_extend[OF c \<open>matches m0 sz tc tol (x - 1) y\<close> this]
        show ?thesis by (rule covers_mono) auto
      next
        case False
        with True that L have pl: "?pl = [XYPoint (x - 1) y]" by simp
        from covers_push[OF c True] show ?thesis unfolding pl by (rule covers_mono) auto
      qed
    qed
  qed
  have 8: "covers ?new m0 sz tc tol (x + 1) y0 (y + 1)" if "x < pt_x sz - 1"
  proof -
    from new(4) that have c: "covers new m0 sz tc tol (x + 1) y0 y" by simp
    show ?thesis
    proof (cases "matches m0 sz tc tol (x + 1) y")
      case False
      from covers_skip[OF c False] show ?thesis by (rule covers_mono) auto
    next
      case True
      show ?thesis
      proof (cases r)
        case True
        with rflag have "y0 < y" "matches m0 sz tc tol (x + 1) (y - 1)" by simp_all
        from covers_extend[OF c \<open>matches m0 sz tc tol (x + 1) y\<close> this]
        show ?thesis by (rule covers_mono) auto
      next
        case False
        with True that R have pr: "?pr = [XYPoint (x + 1) y]" by simp
        from covers_push[OF c True] show ?thesis unfolding pr by (rule covers_mono) auto
      qed
    qed
  qed
  have 9: "L \<longleftrightarrow> y0 < y + 1 \<and> 0 < x \<and> matches m0 sz tc tol (x - 1) (y + 1 - 1)"
    using L yy by auto
  have 10: "R \<longleftrightarrow> y0 < y + 1 \<and> x < pt_x sz - 1 \<and> matches m0 sz tc tol (x + 1) (y + 1 - 1)"
    using R yy by auto
  have ne: "y + 1 \<noteq> y0" using yy by simp
  show ?thesis
    unfolding span_inv_def
    apply (intro conjI)
          apply (rule 1)
         apply (rule 2)
        apply (rule 3)
       apply (rule 4)
      apply (rule exI[of _ ?new])
      apply (intro conjI impI)
          apply (rule 5)
         apply (use ne in simp)
        apply (rule 6)
       apply (erule 7)
      apply (erule 8)
     apply (rule 9)
    apply (rule 10)
    done
qed

lemma fill_span_unfold:
  assumes len: "length m0 = nat (pt_x sz * pt_y sz)" and x: "0 \<le> x" "x < pt_x sz" and y0: "0 \<le> y0"
    and inv: "span_inv m0 sz tc rc tol x y0 s0 m s l r y"
    and cond: "y < pt_y sz" "matches m0 sz tc tol x y"
  shows "fill_span m sz tc rc tol x s l r y =
         fill_span (m[offset sz x y := rc]) sz tc rc tol x
           ((if \<not> r \<and> (x < pt_x sz - 1 \<and> matches m0 sz tc tol (x + 1) y) then [XYPoint (x + 1) y] else []) @
            (if \<not> l \<and> (0 < x \<and> matches m0 sz tc tol (x - 1) y) then [XYPoint (x - 1) y] else []) @ s)
           (0 < x \<and> matches m0 sz tc tol (x - 1) y)
           (x < pt_x sz - 1 \<and> matches m0 sz tc tol (x + 1) y) (y + 1)"
proof -
  let ?m1 = "m[offset sz x y := rc]"
  let ?L = "0 < x \<and> matches m0 sz tc tol (x - 1) y"
  let ?R = "x < pt_x sz - 1 \<and> matches m0 sz tc tol (x + 1) y"
  let ?pl = "if \<not> l \<and> ?L then [XYPoint (x - 1) y] else []"
  let ?pr = "if \<not> r \<and> ?R then [XYPoint (x + 1) y] else []"
  have cur: "fabs_le (m ! offset sz x y) tc tol"
    using span_inv_current(2)[OF len x y0 inv cond(1)] cond(2) by simp
  from inv have lflag: "l \<longrightarrow> 0 < x" and rflag: "r \<longrightarrow> x < pt_x sz - 1"
    by (simp_all add: span_inv_def)
  have nl: "0 < x \<longrightarrow> fabs_le (?m1 ! offset sz (x - 1) y) tc tol = ?L"
    using span_inv_neighbour[OF len x y0 inv cond(1), of "x - 1"] x by auto
  have nr: "x < pt_x sz - 1 \<longrightarrow> fabs_le (?m1 ! offset sz (x + 1) y) tc tol = ?R"
    using span_inv_neighbour[OF len x y0 inv cond(1), of "x + 1"] x by auto
  have lb: "(if \<not> l \<and> 0 < x \<and> fabs_le (?m1 ! offset sz (x - 1) y) tc tol
             then (XYPoint (x - 1) y # s, True)
             else if l \<and> 0 < x \<and> \<not> fabs_le (?m1 ! offset sz (x - 1) y) tc tol
             then (s, False) else (s, l)) = (?pl @ s, ?L)"
    by (rule span_branch[OF lflag nl]) simp
  have rb: "(if \<not> r \<and> x < pt_x sz - 1 \<and> fabs_le (?m1 ! offset sz (x + 1) y) tc tol
             then (XYPoint (x + 1) y # s1, True)
             else if r \<and> x < pt_x sz - 1 \<and> \<not> fabs_le (?m1 ! offset sz (x + 1) y) tc tol
             then (s1, False) else (s1, r)) = (?pr @ s1, ?R)" for s1
    by (rule span_branch[OF rflag nr]) simp
  show ?thesis
    by (subst fill_span.simps) (simp only: cur cond(1) simp_thms if_True Let_def lb rb prod.case)
qed

lemma fill_span_post:
  assumes len: "length m0 = nat (pt_x sz * pt_y sz)" and x: "0 \<le> x" "x < pt_x sz" and y0: "0 \<le> y0"
    and inv: "span_inv m0 sz tc rc tol x y0 s0 m s l r y"
  shows "\<exists>m' s' l' r' y1. fill_span m sz tc rc tol x s l r y = (m', s') \<and> y \<le> y1 \<and>
           span_inv m0 sz tc rc tol x y0 s0 m' s' l' r' y1 \<and>
           \<not> (y1 < pt_y sz \<and> matches m0 sz tc tol x y1)"
  using inv
proof (induction n \<equiv> "nat (pt_y sz - y)" arbitrary: m s l r y rule: less_induct)
  case less
  show ?case
  proof (cases "y < pt_y sz \<and> matches m0 sz tc tol x y")
    case False
    have "\<not> (y < pt_y sz \<and> fabs_le (m ! offset sz x y) tc tol)"
    proof
      assume a: "y < pt_y sz \<and> fabs_le (m ! offset sz x y) tc tol"
      with span_inv_current(2)[OF len x y0 less.prems] False show False by simp
    qed
    then have nc: "(y < pt_y sz \<and> fabs_le (m ! offset sz x y) tc tol) = False" by simp
    have "fill_span m sz tc rc tol x s l r y = (m, s)"
      by (subst fill_span.simps) (simp only: nc if_False)
    with less.prems False show ?thesis by blast
  next
    case True
    let ?L = "0 < x \<and> matches m0 sz tc tol (x - 1) y"
    let ?R = "x < pt_x sz - 1 \<and> matches m0 sz tc tol (x + 1) y"
    let ?s = "(if \<not> r \<and> ?R then [XYPoint (x + 1) y] else []) @
              (if \<not> l \<and> ?L then [XYPoint (x - 1) y] else []) @ s"
    let ?m1 = "m[offset sz x y := rc]"
    from True have c: "y < pt_y sz" "matches m0 sz tc tol x y" by simp_all
    have eq: "fill_span m sz tc rc tol x s l r y = fill_span ?m1 sz tc rc tol x ?s ?L ?R (y + 1)"
      by (rule fill_span_unfold[OF len x y0 less.prems c])
    have inv': "span_inv m0 sz tc rc tol x y0 s0 ?m1 ?s ?L ?R (y + 1)"
      by (rule span_inv_step[OF len x y0 less.prems c]) simp_all
    have "nat (pt_y sz - (y + 1)) < nat (pt_y sz - y)" using c by simp
    from less.hyps[OF this inv'] obtain m' s' l' r' y1 where
      "fill_span ?m1 sz tc rc tol x ?s ?L ?R (y + 1) = (m', s')" "y + 1 \<le> y1"
      "span_inv m0 sz tc rc tol x y0 s0 m' s' l' r' y1"
      "\<not> (y1 < pt_y sz \<and> matches m0 sz tc tol x y1)" by blast
    with eq have "fill_span m sz tc rc tol x s l r y = (m', s') \<and> y \<le> y1 \<and>
           span_inv m0 sz tc rc tol x y0 s0 m' s' l' r' y1 \<and>
           \<not> (y1 < pt_y sz \<and> matches m0 sz tc tol x y1)" by simp
    then show ?thesis by blast
  qed
qed

lemma span_inv_init:
  "span_inv m0 sz tc rc tol x y0 s0 m0 s0 False False y0"
  unfolding span_inv_def pushed_ok_def covers_def by auto

lemma connected4_refl [simp]: "connected4 S p p"
  by (simp add: connected4_def)

lemma connected4_step:
  "connected4 S p q \<Longrightarrow> q \<in> S \<Longrightarrow> r \<in> S \<Longrightarrow> adjacent4 q r \<Longrightarrow> connected4 S p r"
  unfolding connected4_def by (rule rtrancl_into_rtrancl) auto

lemma connected4_trans: "connected4 S p q \<Longrightarrow> connected4 S q r \<Longrightarrow> connected4 S p r"
  unfolding connected4_def by (rule rtrancl_trans)

lemma adjacent4_sym: "adjacent4 p q \<Longrightarrow> adjacent4 q p"
  unfolding adjacent4_def by auto

lemma connected4_sym: "connected4 S p q \<Longrightarrow> connected4 S q p"
proof -
  have s: "sym {(a, b). a \<in> S \<and> b \<in> S \<and> adjacent4 a b}"
    by (auto simp: sym_def adjacent4_sym)
  show "connected4 S p q \<Longrightarrow> connected4 S q p"
    unfolding connected4_def using sym_rtrancl[OF s] by (simp add: sym_def)
qed

lemma connected4_induct [consumes 1, case_names base step]:
  assumes "connected4 S p q" "P p"
    and "\<And>a b. connected4 S p a \<Longrightarrow> P a \<Longrightarrow> a \<in> S \<Longrightarrow> b \<in> S \<Longrightarrow> adjacent4 a b \<Longrightarrow> P b"
  shows "P q"
  using assms(1) unfolding connected4_def
proof (induction rule: rtrancl_induct)
  case base
  then show ?case by (rule assms(2))
next
  case (step a b)
  then show ?case using assms(3)[of a b] by (simp add: connected4_def)
qed

lemma connected4_mono: "connected4 S p q \<Longrightarrow> S \<subseteq> S' \<Longrightarrow> connected4 S' p q"
  by (induction rule: connected4_induct) (auto intro: connected4_step)

lemma target_subset:
  assumes "fill_inv m0 sz tc rc tol seed m s"
  shows "target m sz tc tol \<subseteq> target m0 sz tc tol"
proof
  fix p assume p: "p \<in> target m sz tc tol"
  then have ins: "inside sz p" and np: "p \<notin> painted m0 m sz tc tol"
    by (simp_all add: target_def painted_def)
  with assms have "pixel m sz p = pixel m0 sz p" unfolding fill_inv_def by metis
  with p show "p \<in> target m0 sz tc tol" by (simp add: target_def)
qed

lemma fill_inv_init:
  assumes "seed \<in> target m0 sz tc tol"
  shows "fill_inv m0 sz tc rc tol seed m0 [seed]"
proof -
  have "vrun (target m0 sz tc tol) seed seed"
    unfolding vrun_def using assms by (auto simp: order.antisym)
  then show ?thesis using assms unfolding fill_inv_def painted_def by simp
qed

lemma fill_inv_final:
  assumes inv: "fill_inv m0 sz tc rc tol seed m []" and seed: "seed \<in> target m0 sz tc tol"
    and p: "inside sz p"
  shows "pixel m sz p = (if connected4 (target m0 sz tc tol) seed p \<and> p \<in> target m0 sz tc tol
                         then rc else pixel m0 sz p)"
proof -
  let ?T = "target m0 sz tc tol" and ?U = "target m sz tc tol" and ?P = "painted m0 m sz tc tol"
  from inv have px: "\<forall>p. inside sz p \<longrightarrow> (if p \<in> ?P then pixel m sz p = rc \<and> connected4 ?T seed p
         else pixel m sz p = pixel m0 sz p)"
    and vert: "\<forall>p q. p \<in> ?P \<and> q \<in> ?U \<and> pt_x q = pt_x p \<longrightarrow> \<bar>pt_y q - pt_y p\<bar> \<noteq> 1"
    and pend: "\<forall>q. q \<in> ?U \<and> (q = seed \<or> (\<exists>p \<in> ?P. pt_y p = pt_y q \<and> \<bar>pt_x p - pt_x q\<bar> = 1))
        \<longrightarrow> False"
    unfolding fill_inv_def by simp_all
  have closed: "q \<in> ?P" if "connected4 ?T seed q" "q \<in> ?T" for q
    using that
  proof (induction rule: connected4_induct)
    case base
    with pend show ?case unfolding painted_def by blast
  next
    case (step a b)
    then have a: "a \<in> ?P" by simp
    show ?case
    proof (rule ccontr)
      assume "b \<notin> ?P"
      with step have b: "b \<in> ?U" by (simp add: painted_def)
      from \<open>adjacent4 a b\<close> consider "pt_x a = pt_x b" "\<bar>pt_y a - pt_y b\<bar> = 1"
        | "pt_y a = pt_y b" "\<bar>pt_x a - pt_x b\<bar> = 1" unfolding adjacent4_def by blast
      then show False
      proof cases
        case 1
        with vert a b show False by (metis abs_minus_commute)
      next
        case 2
        with pend a b show False by blast
      qed
    qed
  qed
  show ?thesis
  proof (cases "p \<in> ?P")
    case True
    with px p have "pixel m sz p = rc" "connected4 ?T seed p" by simp_all
    moreover from True have "p \<in> ?T" by (simp add: painted_def)
    ultimately show ?thesis by simp
  next
    case False
    with px p have "pixel m sz p = pixel m0 sz p" by simp
    moreover from False closed have "\<not> (connected4 ?T seed p \<and> p \<in> ?T)" by blast
    ultimately show ?thesis by auto
  qed
qed

lemma point_eq: "XYPoint (pt_x p) (pt_y p) = p"
  by (cases p) simp

lemma target_iff:
  "p \<in> target m sz tc tol \<longleftrightarrow> inside sz p \<and> matches m sz tc tol (pt_x p) (pt_y p)"
  by (simp add: target_def matches_def pixel_def)

lemma scan_up_run:
  assumes "0 \<le> ys" "matches m sz tc tol x ys"
  shows "0 \<le> scan_up m sz tc tol x ys + 1"
    and "scan_up m sz tc tol x ys + 1 \<le> ys"
    and "\<forall>y. scan_up m sz tc tol x ys + 1 \<le> y \<and> y \<le> ys \<longrightarrow> matches m sz tc tol x y"
    and "scan_up m sz tc tol x ys + 1 \<le> 0 \<or> \<not> matches m sz tc tol x (scan_up m sz tc tol x ys + 1 - 1)"
proof -
  let ?u = "scan_up m sz tc tol x ys"
  have ge: "- 1 \<le> ?u" using assms(1) by (intro scan_up_ge) simp
  then show "0 \<le> ?u + 1" by simp
  have stop: "?u < 0 \<or> \<not> matches m sz tc tol x ?u" by (rule scan_up_stop)
  have "?u \<noteq> ys" using stop assms by auto
  with scan_up_le[of m sz tc tol x ys] show "?u + 1 \<le> ys" by simp
  show "\<forall>y. ?u + 1 \<le> y \<and> y \<le> ys \<longrightarrow> matches m sz tc tol x y"
    using scan_up_matches[of m sz tc tol x ys] by auto
  show "?u + 1 \<le> 0 \<or> \<not> matches m sz tc tol x (?u + 1 - 1)" using stop by auto
qed

lemma vertical_connected_up:
  assumes "\<forall>y. ya \<le> y \<and> y \<le> yb \<longrightarrow> XYPoint x y \<in> S" "ya \<le> yb"
  shows "connected4 S (XYPoint x ya) (XYPoint x yb)"
  using assms
proof (induction n \<equiv> "nat (yb - ya)" arbitrary: yb)
  case 0
  then have "yb = ya" by simp
  then show ?case by simp
next
  case (Suc n)
  then have lt: "ya \<le> yb - 1" and n: "n = nat (yb - 1 - ya)" by simp_all
  have "connected4 S (XYPoint x ya) (XYPoint x (yb - 1))"
    using Suc.hyps(1)[OF n _ lt] Suc.prems(1) by simp
  moreover have "XYPoint x (yb - 1) \<in> S" "XYPoint x yb \<in> S" using Suc.prems lt by simp_all
  moreover have "adjacent4 (XYPoint x (yb - 1)) (XYPoint x yb)" by (simp add: adjacent4_def)
  ultimately show ?case by (rule connected4_step)
qed

lemma vertical_connected:
  assumes "\<forall>y. min ya yb \<le> y \<and> y \<le> max ya yb \<longrightarrow> XYPoint x y \<in> S"
  shows "connected4 S (XYPoint x ya) (XYPoint x yb)"
proof (cases "ya \<le> yb")
  case True
  with assms show ?thesis by (intro vertical_connected_up) auto
next
  case False
  with assms have "connected4 S (XYPoint x yb) (XYPoint x ya)" by (intro vertical_connected_up) auto
  then show ?thesis by (rule connected4_sym)
qed

lemma target_after_span:
  assumes nc: "\<not> fabs_le rc tc tol"
    and px: "\<forall>p. inside sz p \<longrightarrow>
        pixel m' sz p = (if pt_x p = x \<and> y0 \<le> pt_y p \<and> pt_y p < y1 then rc else pixel m sz p)"
  shows "target m' sz tc tol = target m sz tc tol - {p. pt_x p = x \<and> y0 \<le> pt_y p \<and> pt_y p < y1}"
proof (intro set_eqI)
  fix p
  show "p \<in> target m' sz tc tol \<longleftrightarrow>
        p \<in> target m sz tc tol - {p. pt_x p = x \<and> y0 \<le> pt_y p \<and> pt_y p < y1}"
  proof (cases "inside sz p")
    case False
    then show ?thesis by (simp add: target_def)
  next
    case True
    with px have "pixel m' sz p = (if pt_x p = x \<and> y0 \<le> pt_y p \<and> pt_y p < y1 then rc else pixel m sz p)"
      by simp
    with True nc show ?thesis by (simp add: target_def)
  qed
qed

lemma fill_inv_pop_painted:
  assumes inv: "fill_inv m0 sz tc rc tol seed m (pt # s)" and np: "pt \<notin> target m sz tc tol"
  shows "fill_span m sz tc rc tol (pt_x pt) s False False
           (scan_up m sz tc tol (pt_x pt) (pt_y pt) + 1) = (m, s)"
    and "fill_inv m0 sz tc rc tol seed m s"
proof -
  let ?T = "target m0 sz tc tol" and ?U = "target m sz tc tol" and ?P = "painted m0 m sz tc tol"
  let ?x = "pt_x pt" and ?ys = "pt_y pt"
  from inv have ptT: "pt \<in> ?T" unfolding fill_inv_def by simp
  then have ins: "inside sz pt" by (simp add: target_def)
  from ptT np have ptP: "pt \<in> ?P" by (simp add: painted_def)
  from np ins have nm: "\<not> matches m sz tc tol ?x ?ys" by (simp add: target_iff)
  then have su: "scan_up m sz tc tol ?x ?ys = ?ys" by (rule scan_up_no_match)
  from inv have vert: "\<forall>p q. p \<in> ?P \<and> q \<in> ?U \<and> pt_x q = pt_x p \<longrightarrow> \<bar>pt_y q - pt_y p\<bar> \<noteq> 1"
    unfolding fill_inv_def by simp
  have stop: "\<not> (?ys + 1 < pt_y sz \<and> fabs_le (m ! offset sz ?x (?ys + 1)) tc tol)"
  proof
    assume a: "?ys + 1 < pt_y sz \<and> fabs_le (m ! offset sz ?x (?ys + 1)) tc tol"
    let ?q = "XYPoint ?x (?ys + 1)"
    have "inside sz ?q" using ins a by (simp add: inside_def)
    with a have "?q \<in> ?U" by (simp add: target_iff matches_def)
    with vert ptP have "\<bar>pt_y ?q - pt_y pt\<bar> \<noteq> 1" by (metis XYPoint.sel(1))
    then show False by simp
  qed
  show "fill_span m sz tc rc tol ?x s False False (scan_up m sz tc tol ?x ?ys + 1) = (m, s)"
    unfolding su using stop by (subst fill_span.simps) auto
  have pend: "\<exists>t \<in> set s. vrun ?U t q"
    if q: "q \<in> ?U \<and> (q = seed \<or> (\<exists>p \<in> ?P. pt_y p = pt_y q \<and> \<bar>pt_x p - pt_x q\<bar> = 1))" for q
  proof -
    from inv q obtain t where t: "t \<in> set (pt # s)" "vrun ?U t q"
      unfolding fill_inv_def by blast
    have "t \<noteq> pt"
    proof
      assume "t = pt"
      with t(2) have "XYPoint (pt_x pt) (pt_y pt) \<in> ?U" unfolding vrun_def by auto
      with np show False by (simp add: point_eq)
    qed
    with t show ?thesis by auto
  qed
  show "fill_inv m0 sz tc rc tol seed m s"
    using inv pend unfolding fill_inv_def by simp
qed

lemma fill_inv_pop_target:
  assumes len: "length m0 = nat (pt_x sz * pt_y sz)" and nc: "\<not> fabs_le rc tc tol"
    and inv: "fill_inv m0 sz tc rc tol seed m (pt # s)" and tp: "pt \<in> target m sz tc tol"
  shows "\<exists>m' s'. fill_span m sz tc rc tol (pt_x pt) s False False
                    (scan_up m sz tc tol (pt_x pt) (pt_y pt) + 1) = (m', s') \<and>
                 fill_inv m0 sz tc rc tol seed m' s' \<and>
                 target m' sz tc tol \<subset> target m sz tc tol"
proof -
  let ?T = "target m0 sz tc tol" and ?U = "target m sz tc tol" and ?P = "painted m0 m sz tc tol"
  let ?x = "pt_x pt" and ?ys = "pt_y pt"
  let ?y0 = "scan_up m sz tc tol ?x ?ys + 1"
  \<comment> \<open>the invariant before\<close>
  from inv have lm: "length m = length m0"
    and px: "\<forall>p. inside sz p \<longrightarrow> (if p \<in> ?P then pixel m sz p = rc \<and> connected4 ?T seed p
                                   else pixel m sz p = pixel m0 sz p)"
    and stk: "\<forall>t \<in> set (pt # s). t \<in> ?T \<and> connected4 ?T seed t"
    and vert: "\<forall>p q. p \<in> ?P \<and> q \<in> ?U \<and> pt_x q = pt_x p \<longrightarrow> \<bar>pt_y q - pt_y p\<bar> \<noteq> 1"
    and pend: "\<forall>q. q \<in> ?U \<and> (q = seed \<or> (\<exists>p \<in> ?P. pt_y p = pt_y q \<and> \<bar>pt_x p - pt_x q\<bar> = 1))
                 \<longrightarrow> (\<exists>t \<in> set (pt # s). vrun ?U t q)"
    unfolding fill_inv_def by simp_all
  have UT: "?U \<subseteq> ?T" by (rule target_subset[OF inv])
  have lm': "length m = nat (pt_x sz * pt_y sz)" using lm len by simp
  \<comment> \<open>the popped seed and the top of its run\<close>
  from tp have ins: "inside sz pt" and mt: "matches m sz tc tol ?x ?ys" by (simp_all add: target_iff)
  then have x: "0 \<le> ?x" "?x < pt_x sz" and ys: "0 \<le> ?ys" "?ys < pt_y sz" by (simp_all add: inside_def)
  note su = scan_up_run[OF ys(1) mt]
  \<comment> \<open>the painted run\<close>
  from fill_span_post[OF lm' x su(1) span_inv_init[of m sz tc rc tol ?x ?y0 s]]
  obtain m' s' l' r' y1 where fs: "fill_span m sz tc rc tol ?x s False False ?y0 = (m', s')"
    and y1: "?y0 \<le> y1" and sp: "span_inv m sz tc rc tol ?x ?y0 s m' s' l' r' y1"
    and below: "\<not> (y1 < pt_y sz \<and> matches m sz tc tol ?x y1)" by blast
  from sp have lm1: "length m' = length m"
    and px': "\<forall>p. inside sz p \<longrightarrow>
        pixel m' sz p = (if pt_x p = ?x \<and> ?y0 \<le> pt_y p \<and> pt_y p < y1 then rc else pixel m sz p)"
    and run: "\<forall>y'. ?y0 \<le> y' \<and> y' < y1 \<longrightarrow> y' < pt_y sz \<and> matches m sz tc tol ?x y'"
    by (simp_all add: span_inv_def)
  from sp obtain new where new: "s' = new @ s" "pushed_ok new m sz tc tol ?x ?y0 y1"
      "0 < ?x \<longrightarrow> covers new m sz tc tol (?x - 1) ?y0 y1"
      "?x < pt_x sz - 1 \<longrightarrow> covers new m sz tc tol (?x + 1) ?y0 y1"
    unfolding span_inv_def by blast
  let ?R = "{p. pt_x p = ?x \<and> ?y0 \<le> pt_y p \<and> pt_y p < y1}"
  have ys_lt: "?ys < y1"
  proof (rule ccontr)
    assume "\<not> ?ys < y1"
    with y1 su(3) ys have "y1 < pt_y sz \<and> matches m sz tc tol ?x y1" by auto
    with below show False by simp
  qed
  have ptR: "pt \<in> ?R" using su(2) ys_lt by simp
  have R_ins: "inside sz p" if "p \<in> ?R" for p
    using that run su(1) x by (auto simp: inside_def)
  have RU: "?R \<subseteq> ?U"
  proof
    fix p assume p: "p \<in> ?R"
    with run have "matches m sz tc tol (pt_x p) (pt_y p)" by auto
    with R_ins[OF p] show "p \<in> ?U" by (simp add: target_iff)
  qed
  have U': "target m' sz tc tol = ?U - ?R" by (rule target_after_span[OF nc px'])
  have P': "painted m0 m' sz tc tol = ?P \<union> ?R" unfolding painted_def U' using RU UT by blast
  \<comment> \<open>the run is connected to the seed\<close>
  have ptc: "connected4 ?T seed pt" using stk by simp
  have R_conn: "connected4 ?T seed p" if p: "p \<in> ?R" for p
  proof -
    have "\<forall>y. min ?ys (pt_y p) \<le> y \<and> y \<le> max ?ys (pt_y p) \<longrightarrow> XYPoint ?x y \<in> ?T"
    proof (intro allI impI)
      fix y assume "min ?ys (pt_y p) \<le> y \<and> y \<le> max ?ys (pt_y p)"
      with p ptR have "XYPoint ?x y \<in> ?R" by auto
      with RU UT show "XYPoint ?x y \<in> ?T" by blast
    qed
    then have "connected4 ?T (XYPoint ?x ?ys) (XYPoint ?x (pt_y p))" by (rule vertical_connected)
    moreover have "XYPoint ?x (pt_y p) = p" using p by (cases p) auto
    ultimately have "connected4 ?T pt p" by (simp add: point_eq)
    with ptc show ?thesis by (rule connected4_trans)
  qed
  \<comment> \<open>the new seeds\<close>
  have new_ok: "t \<in> ?U \<and> t \<notin> ?R \<and> connected4 ?T seed t" if t: "t \<in> set new" for t
  proof -
    from new(2) t have tx: "pt_x t = ?x - 1 \<or> pt_x t = ?x + 1" and txr: "0 \<le> pt_x t" "pt_x t < pt_x sz"
      and ty: "?y0 \<le> pt_y t" "pt_y t < y1" and tm: "matches m sz tc tol (pt_x t) (pt_y t)"
      unfolding pushed_ok_def by auto
    from ty run su(1) have "0 \<le> pt_y t" "pt_y t < pt_y sz" by auto
    with txr have "inside sz t" by (simp add: inside_def)
    with tm have tU: "t \<in> ?U" by (simp add: target_iff)
    from tx have tR: "t \<notin> ?R" by auto
    let ?p = "XYPoint ?x (pt_y t)"
    have pR: "?p \<in> ?R" using ty by simp
    have "adjacent4 ?p t" using tx by (auto simp: adjacent4_def)
    moreover have "?p \<in> ?T" "t \<in> ?T" using pR RU UT tU by blast+
    ultimately have "connected4 ?T seed t" using R_conn[OF pR] by (intro connected4_step[of ?T seed ?p t])
    with tU tR show ?thesis by simp
  qed
  \<comment> \<open>a vertical segment of unpainted cells that meets the run stays inside it\<close>
  have seg: "pt_y q < y1" if "pt_x q = ?x" "yc < y1" "yc \<le> pt_y q"
      "\<forall>y. yc \<le> y \<and> y \<le> pt_y q \<longrightarrow> XYPoint ?x y \<in> ?U" for q yc
  proof (rule ccontr)
    assume "\<not> pt_y q < y1"
    with that have "XYPoint ?x y1 \<in> ?U" by auto
    then have "y1 < pt_y sz \<and> matches m sz tc tol ?x y1" by (simp add: target_iff inside_def)
    with below show False by simp
  qed
  \<comment> \<open>the invariant after\<close>
  have I1: "length m' = length m0" using lm1 lm by simp
  have I2: "\<forall>p. inside sz p \<longrightarrow> (if p \<in> ?P \<union> ?R then pixel m' sz p = rc \<and> connected4 ?T seed p
                                   else pixel m' sz p = pixel m0 sz p)"
  proof (intro allI impI)
    fix p assume p: "inside sz p"
    show "if p \<in> ?P \<union> ?R then pixel m' sz p = rc \<and> connected4 ?T seed p
          else pixel m' sz p = pixel m0 sz p"
    proof (cases "p \<in> ?R")
      case True
      with px' p R_conn[OF True] show ?thesis by simp
    next
      case False
      with px' p have "pixel m' sz p = pixel m sz p" by auto
      with px p False show ?thesis by auto
    qed
  qed
  have I3: "\<forall>t \<in> set s'. t \<in> ?T \<and> connected4 ?T seed t"
    unfolding new(1) using stk new_ok UT by auto
  have I4: "\<forall>p q. p \<in> ?P \<union> ?R \<and> q \<in> ?U - ?R \<and> pt_x q = pt_x p \<longrightarrow> \<bar>pt_y q - pt_y p\<bar> \<noteq> 1"
  proof (intro allI impI)
    fix p q assume a: "p \<in> ?P \<union> ?R \<and> q \<in> ?U - ?R \<and> pt_x q = pt_x p"
    show "\<bar>pt_y q - pt_y p\<bar> \<noteq> 1"
    proof (cases "p \<in> ?R")
      case False
      with a vert show ?thesis by blast
    next
      case True
      show ?thesis
      proof
        assume d: "\<bar>pt_y q - pt_y p\<bar> = 1"
        from a have qU: "q \<in> ?U" and qR: "q \<notin> ?R" and qx: "pt_x q = ?x" using True by auto
        from qU have qi: "inside sz q" and qm: "matches m sz tc tol ?x (pt_y q)"
          using qx by (simp_all add: target_iff)
        from d True qR qx have "pt_y q = ?y0 - 1 \<or> pt_y q = y1" by auto
        then show False
        proof
          assume e: "pt_y q = ?y0 - 1"
          with qi have "\<not> ?y0 \<le> 0" by (simp add: inside_def)
          with su(4) e qm show False by simp
        next
          assume e: "pt_y q = y1"
          with qi qm below show False by (simp add: inside_def)
        qed
      qed
    qed
  qed
  have I5: "\<forall>q. q \<in> ?U - ?R \<and>
               (q = seed \<or> (\<exists>p \<in> ?P \<union> ?R. pt_y p = pt_y q \<and> \<bar>pt_x p - pt_x q\<bar> = 1))
             \<longrightarrow> (\<exists>t \<in> set s'. vrun (?U - ?R) t q)"
  proof (intro allI impI)
    fix q assume a: "q \<in> ?U - ?R \<and>
               (q = seed \<or> (\<exists>p \<in> ?P \<union> ?R. pt_y p = pt_y q \<and> \<bar>pt_x p - pt_x q\<bar> = 1))"
    then have qU: "q \<in> ?U" and qR: "q \<notin> ?R" by simp_all
    from qU have qi: "inside sz q" by (simp add: target_def)
    show "\<exists>t \<in> set s'. vrun (?U - ?R) t q"
    proof (cases "q = seed \<or> (\<exists>p \<in> ?P. pt_y p = pt_y q \<and> \<bar>pt_x p - pt_x q\<bar> = 1)")
      case True
      with pend qU obtain t where t: "t \<in> set (pt # s)" "vrun ?U t q" by blast
      from t(2) have tx: "pt_x t = pt_x q" and ty: "pt_y t \<le> pt_y q"
        and tseg: "\<forall>y. pt_y t \<le> y \<and> y \<le> pt_y q \<longrightarrow> XYPoint (pt_x q) y \<in> ?U"
        unfolding vrun_def by simp_all
      have noR: "XYPoint (pt_x q) yc \<notin> ?R" if yc: "pt_y t \<le> yc" "yc \<le> pt_y q" for yc
      proof
        assume c: "XYPoint (pt_x q) yc \<in> ?R"
        then have qx: "pt_x q = ?x" and c1: "?y0 \<le> yc" "yc < y1" by simp_all
        have "\<forall>y. yc \<le> y \<and> y \<le> pt_y q \<longrightarrow> XYPoint ?x y \<in> ?U"
          using tseg yc qx by auto
        from seg[OF qx c1(2) yc(2) this] have "pt_y q < y1" .
        with qx c1 yc have "q \<in> ?R" by simp
        with qR show False by simp
      qed
      have "t \<noteq> pt"
      proof
        assume e: "t = pt"
        with tx ty have "XYPoint (pt_x q) ?ys \<notin> ?R" by (intro noR) simp_all
        moreover have "XYPoint (pt_x q) ?ys = pt" using tx e point_eq[of pt] by simp
        ultimately show False using ptR by simp
      qed
      with t(1) have ts: "t \<in> set s'" unfolding new(1) by auto
      have "vrun (?U - ?R) t q" unfolding vrun_def using tx ty tseg noR by auto
      with ts show ?thesis by blast
    next
      case False
      with a obtain p where p: "p \<in> ?R" "pt_y p = pt_y q" "\<bar>pt_x p - pt_x q\<bar> = 1" by blast
      then have py: "?y0 \<le> pt_y q" "pt_y q < y1" and qx: "pt_x q = ?x - 1 \<or> pt_x q = ?x + 1"
        by auto
      from qU have qm: "matches m sz tc tol (pt_x q) (pt_y q)" by (simp add: target_iff)
      from qi have qxr: "0 \<le> pt_x q" "pt_x q < pt_x sz" by (simp_all add: inside_def)
      have cov: "covers new m sz tc tol (pt_x q) ?y0 y1"
        using qx qxr new(3,4) by auto
      with py qm obtain t where t: "t \<in> set new" "pt_x t = pt_x q" "pt_y t \<le> pt_y q"
          "\<forall>y''. pt_y t \<le> y'' \<and> y'' \<le> pt_y q \<longrightarrow> matches m sz tc tol (pt_x q) y''"
        unfolding covers_def by blast
      from new(2) t(1) have ty0: "?y0 \<le> pt_y t" unfolding pushed_ok_def by simp
      have "XYPoint (pt_x q) y \<in> ?U - ?R" if y: "pt_y t \<le> y \<and> y \<le> pt_y q" for y
      proof -
        have "inside sz (XYPoint (pt_x q) y)"
          using qxr qi y ty0 su(1) by (simp add: inside_def)
        moreover have "matches m sz tc tol (pt_x q) y" using t(4) y by simp
        ultimately have "XYPoint (pt_x q) y \<in> ?U" by (simp add: target_iff)
        moreover have "XYPoint (pt_x q) y \<notin> ?R" using qx by auto
        ultimately show ?thesis by simp
      qed
      then have "vrun (?U - ?R) t q" unfolding vrun_def using t(2,3) by simp
      moreover have "t \<in> set s'" using t(1) new(1) by simp
      ultimately show ?thesis by blast
    qed
  qed
  have inv': "fill_inv m0 sz tc rc tol seed m' s'"
    unfolding fill_inv_def P' U' using I1 I2 I3 I4 I5 by blast
  have "?U - ?R \<subset> ?U" using ptR tp by blast
  with fs inv' U' show ?thesis by auto
qed

lemma floodFill_loop_Nil: "floodFill_loop m sz tc rc tol [] = Some m"
  by (subst floodFill_loop.simps) simp

lemma floodFill_loop_Cons:
  "fill_span m sz tc rc tol (pt_x pt) s False False (scan_up m sz tc tol (pt_x pt) (pt_y pt) + 1) = (m', s')
   \<Longrightarrow> floodFill_loop m sz tc rc tol (pt # s) = floodFill_loop m' sz tc rc tol s'"
  by (subst floodFill_loop.simps) simp

lemma floodFill_loop_terminates:
  assumes len: "length m0 = nat (pt_x sz * pt_y sz)" and nc: "\<not> fabs_le rc tc tol"
  shows "(card (target m sz tc tol), length s) = k \<Longrightarrow> fill_inv m0 sz tc rc tol seed m s \<Longrightarrow>
         \<exists>m'. floodFill_loop m sz tc rc tol s = Some m' \<and> fill_inv m0 sz tc rc tol seed m' []"
proof (induction k arbitrary: m s rule: wf_induct_rule[OF wf_lex_prod[OF wf_less_than wf_less_than]])
  case (1 k)
  show ?case
  proof (cases s)
    case Nil
    with "1.prems" show ?thesis by (simp add: floodFill_loop_Nil)
  next
    case (Cons pt s0)
    show ?thesis
    proof (cases "pt \<in> target m sz tc tol")
      case False
      from "1.prems"(2) have inv: "fill_inv m0 sz tc rc tol seed m (pt # s0)" by (simp add: Cons)
      note A = fill_inv_pop_painted[OF inv False]
      have "((card (target m sz tc tol), length s0), k) \<in> less_than <*lex*> less_than"
        using "1.prems"(1) Cons by auto
      from "1.IH"[OF this refl A(2)] obtain m' where
        "floodFill_loop m sz tc rc tol s0 = Some m'" "fill_inv m0 sz tc rc tol seed m' []" by blast
      with floodFill_loop_Cons[OF A(1)] Cons show ?thesis by simp
    next
      case True
      from "1.prems"(2) have inv: "fill_inv m0 sz tc rc tol seed m (pt # s0)" by (simp add: Cons)
      from fill_inv_pop_target[OF len nc inv True] obtain m1 s1 where
        fs: "fill_span m sz tc rc tol (pt_x pt) s0 False False
               (scan_up m sz tc tol (pt_x pt) (pt_y pt) + 1) = (m1, s1)"
        and inv1: "fill_inv m0 sz tc rc tol seed m1 s1"
        and sub: "target m1 sz tc tol \<subset> target m sz tc tol" by blast
      have "card (target m1 sz tc tol) < card (target m sz tc tol)"
        using sub finite_target by (rule psubset_card_mono[rotated])
      then have "((card (target m1 sz tc tol), length s1), k) \<in> less_than <*lex*> less_than"
        using "1.prems"(1) by auto
      from "1.IH"[OF this refl inv1] obtain m' where
        "floodFill_loop m1 sz tc rc tol s1 = Some m'" "fill_inv m0 sz tc rc tol seed m' []" by blast
      with floodFill_loop_Cons[OF fs] Cons show ?thesis by simp
    qed
  qed
qed

text \<open>The flood filler, when the painted value does not match the target.\<close>

lemma floodFill_loop_correct:
  assumes len: "length m = nat (pt_x sz * pt_y sz)" and nc: "\<not> fabs_le rc tc tol"
    and seed: "seed \<in> target m sz tc tol"
  shows "\<exists>m'. floodFill_loop m sz tc rc tol [seed] = Some m' \<and> length m' = length m \<and>
           (\<forall>p. inside sz p \<longrightarrow>
              pixel m' sz p = (if connected4 (target m sz tc tol) seed p \<and> p \<in> target m sz tc tol
                               then rc else pixel m sz p))"
proof -
  from floodFill_loop_terminates[OF len nc refl fill_inv_init[OF seed]]
  obtain m' where r: "floodFill_loop m sz tc rc tol [seed] = Some m'"
    and inv: "fill_inv m sz tc rc tol seed m' []" by blast
  from inv have "length m' = length m" by (simp add: fill_inv_def)
  with r fill_inv_final[OF inv seed] show ?thesis by blast
qed

section \<open>The labeller\<close>

lemma fabs_le_zero: "fabs_le a b 0 \<longleftrightarrow> a = b"
  by (simp add: fabs_le_def)

lemma target_unvisited: "target res sz (- 1) 0 = {p. inside sz p \<and> pixel res sz p = - 1}"
  by (simp add: target_def fabs_le_zero)

lemma floodFill_label:
  assumes len: "length res = nat (pt_x sz * pt_y sz)" and p: "inside sz p" "pixel res sz p = - 1"
    and idx: "1 \<le> idx"
  shows "\<exists>res'. floodFill res sz p idx 0 = Some res' \<and> length res' = length res \<and>
           (\<forall>q. inside sz q \<longrightarrow>
              pixel res' sz q =
                (if connected4 {p. inside sz p \<and> pixel res sz p = - 1} p q \<and> pixel res sz q = - 1
                 then idx else pixel res sz q))"
proof -
  have tc: "res ! offset sz (pt_x p) (pt_y p) = - 1" using p(2) by (simp add: pixel_def)
  have g: "collision_guard (- 1) idx 0 = idx" using idx by (simp add: collision_guard_def fabs_le_zero)
  have nc: "\<not> fabs_le idx (- 1) 0" using idx by (simp add: fabs_le_zero)
  have seed: "p \<in> target res sz (- 1) 0" using p by (simp add: target_unvisited)
  from floodFill_loop_correct[OF len nc seed] obtain res' where
    r: "floodFill_loop res sz (- 1) idx 0 [p] = Some res'" "length res' = length res"
    "\<forall>q. inside sz q \<longrightarrow> pixel res' sz q =
        (if connected4 (target res sz (- 1) 0) p q \<and> q \<in> target res sz (- 1) 0 then idx else pixel res sz q)"
    by blast
  have "floodFill res sz p idx 0 = Some res'"
    by (simp add: floodFill_def tc g r(1))
  moreover have "\<forall>q. inside sz q \<longrightarrow>
              pixel res' sz q =
                (if connected4 {p. inside sz p \<and> pixel res sz p = - 1} p q \<and> pixel res sz q = - 1
                 then idx else pixel res sz q)"
    using r(3) unfolding target_unvisited by auto
  ultimately show ?thesis using r(2) by blast
qed

lemma scan_pos_offset: "inside sz p \<Longrightarrow> int (offset sz (pt_x p) (pt_y p)) = scan_pos sz p"
  by (simp add: offset_def scan_pos_def inside_def)

lemma scan_pos_inj: "inside sz p \<Longrightarrow> inside sz q \<Longrightarrow> scan_pos sz p = scan_pos sz q \<longleftrightarrow> p = q"
proof -
  assume a: "inside sz p" "inside sz q"
  then have "pt_x p + pt_y p * pt_x sz = pt_x q + pt_y q * pt_x sz
             \<longleftrightarrow> pt_x p = pt_x q \<and> pt_y p = pt_y q"
    by (intro index_inj) (simp_all add: inside_def)
  moreover have "pt_x p = pt_x q \<and> pt_y p = pt_y q \<longleftrightarrow> p = q" by (cases p; cases q) simp
  ultimately show ?thesis by (simp add: scan_pos_def)
qed


lemma foreground_inside: "p \<in> foreground src sz \<Longrightarrow> inside sz p"
  by (simp add: foreground_def)

lemma label_inv_skip:
  assumes inv: "label_inv src sz res pos idx" and p: "inside sz p" "scan_pos sz p = pos"
    and v: "pixel res sz p \<noteq> - 1"
  shows "label_inv src sz res (pos + 1) idx"
proof -
  from inv have loc: "labels_local src sz res pos idx" and used: "labels_used sz res pos idx"
    by (simp_all add: label_inv_def)
  have "labels_local src sz res (pos + 1) idx"
    unfolding labels_local_def
  proof (intro allI impI conjI)
    fix q assume q: "inside sz q"
    with loc show "(pixel res sz q = 0) = (pixel src sz q = 0)"
      and "pixel res sz q = - 1 \<or> 0 \<le> pixel res sz q \<and> pixel res sz q < idx"
      unfolding labels_local_def by simp_all
    assume lt: "scan_pos sz q < pos + 1"
    show "pixel res sz q \<noteq> - 1"
    proof (cases "scan_pos sz q < pos")
      case True
      with loc q show ?thesis unfolding labels_local_def by simp
    next
      case False
      with lt p have "scan_pos sz q = scan_pos sz p" by simp
      with q p scan_pos_inj[of sz q p] have "q = p" by simp
      with v show ?thesis by simp
    qed
  qed
  moreover have "labels_used sz res (pos + 1) idx"
    unfolding labels_used_def
  proof (intro allI impI)
    fix k assume "1 \<le> k \<and> k < idx"
    with used obtain p where "inside sz p \<and> pixel res sz p = k \<and> scan_pos sz p < pos"
      unfolding labels_used_def by blast
    then show "\<exists>p. inside sz p \<and> pixel res sz p = k \<and> scan_pos sz p < pos + 1"
      by (intro exI[of _ p]) simp
  qed
  ultimately show ?thesis using inv by (simp add: label_inv_def)
qed

lemma unvisited_component:
  assumes inv: "label_inv src sz res pos idx" and p: "inside sz p" "pixel res sz p = - 1"
  shows "connected4 {p. inside sz p \<and> pixel res sz p = - 1} p q \<and> inside sz q \<and> pixel res sz q = - 1
         \<longleftrightarrow> q \<in> foreground src sz \<and> connected4 (foreground src sz) p q"
proof -
  let ?T = "{p. inside sz p \<and> pixel res sz p = - 1}" and ?F = "foreground src sz"
  from inv have bg: "\<forall>p. inside sz p \<longrightarrow> (pixel res sz p = 0 \<longleftrightarrow> pixel src sz p = 0)"
    unfolding label_inv_def labels_local_def by simp
  from inv have same: "\<forall>p q. p \<in> ?F \<and> q \<in> ?F \<and> pixel res sz p \<noteq> - 1 \<longrightarrow>
        (pixel res sz q = pixel res sz p \<longleftrightarrow> connected4 ?F p q)"
    unfolding label_inv_def labels_conn_def by simp
  have TF: "?T \<subseteq> ?F"
  proof
    fix a assume "a \<in> ?T"
    then have "inside sz a" "pixel res sz a \<noteq> 0" by simp_all
    with bg show "a \<in> ?F" by (simp add: foreground_def)
  qed
  show ?thesis
  proof
    assume a: "connected4 ?T p q \<and> inside sz q \<and> pixel res sz q = - 1"
    then have "q \<in> ?T" by simp
    with TF a show "q \<in> ?F \<and> connected4 ?F p q" using connected4_mono[of ?T p q ?F] by blast
  next
    assume a: "q \<in> ?F \<and> connected4 ?F p q"
    then have "connected4 ?F p q" by simp
    then have "connected4 ?T p q \<and> q \<in> ?T"
    proof (induction rule: connected4_induct)
      case base
      with p show ?case by simp
    next
      case (step a b)
      have "pixel res sz b = - 1"
      proof (rule ccontr)
        assume nb: "pixel res sz b \<noteq> - 1"
        have "connected4 ?F b a"
          by (rule connected4_step[OF connected4_refl step.hyps(3) step.hyps(2) adjacent4_sym[OF step.hyps(4)]])
        with same step.hyps(2,3) nb have "pixel res sz a = pixel res sz b" by blast
        with nb step.IH show False by simp
      qed
      with step.hyps(3) have bT: "b \<in> ?T" by (simp add: foreground_def)
      from step.IH have "connected4 ?T p a" "a \<in> ?T" by simp_all
      then have "connected4 ?T p b" using bT step.hyps(4) by (rule connected4_step)
      with bT show ?case by simp
    qed
    then show "connected4 ?T p q \<and> inside sz q \<and> pixel res sz q = - 1" by simp
  qed
qed


lemma label_inv_fill:
  assumes inv: "label_inv src sz res pos idx" and p: "inside sz p" "scan_pos sz p = pos"
    and v: "pixel res sz p = - 1"
    and len': "length res' = length res"
    and res': "\<forall>q. inside sz q \<longrightarrow>
              pixel res' sz q =
                (if connected4 {p. inside sz p \<and> pixel res sz p = - 1} p q \<and> pixel res sz q = - 1
                 then idx else pixel res sz q)"
  shows "label_inv src sz res' (pos + 1) (idx + 1)"
proof -
  let ?F = "foreground src sz"
  let ?C = "\<lambda>q. q \<in> ?F \<and> connected4 ?F p q"
  from inv have len: "length res = nat (pt_x sz * pt_y sz)" and idx: "1 \<le> idx"
    and loc: "labels_local src sz res pos idx" and conn: "labels_conn src sz res"
    and used: "labels_used sz res pos idx" and ord: "labels_order sz res"
    by (simp_all add: label_inv_def)
  from loc have bg: "\<And>q. inside sz q \<Longrightarrow> (pixel res sz q = 0) = (pixel src sz q = 0)"
    and rng: "\<And>q. inside sz q \<Longrightarrow> pixel res sz q = - 1 \<or> (0 \<le> pixel res sz q \<and> pixel res sz q < idx)"
    and scanned: "\<And>q. inside sz q \<Longrightarrow> scan_pos sz q < pos \<Longrightarrow> pixel res sz q \<noteq> - 1"
    unfolding labels_local_def by simp_all
  note comp = unvisited_component[OF inv p(1) v]
  have new: "pixel res' sz q = (if ?C q then idx else pixel res sz q)" if "inside sz q" for q
    using res' that comp[of q] by auto
  have newC: "pixel res' sz q = idx" if "inside sz q" "?C q" for q
    using new[OF that(1)] that(2) by auto
  have newN: "pixel res' sz q = pixel res sz q" if "inside sz q" "\<not> ?C q" for q
    using new[OF that(1)] that(2) by auto
  have C_unvisited: "pixel res sz q = - 1" if "?C q" for q
    using comp[of q] that by blast
  have Cp: "?C p"
    using p v bg[of p] by (simp add: foreground_def)
  have C_conn: "?C b \<longleftrightarrow> connected4 ?F a b" if "?C a" "b \<in> ?F" for a b
  proof
    assume "?C b"
    with that have "connected4 ?F a p" "connected4 ?F p b" by (simp_all add: connected4_sym)
    then show "connected4 ?F a b" by (rule connected4_trans)
  next
    assume "connected4 ?F a b"
    with that have "connected4 ?F p b" using connected4_trans[of ?F p a b] by simp
    with that show "?C b" by simp
  qed
  \<comment> \<open>cell-local facts\<close>
  have L: "labels_local src sz res' (pos + 1) (idx + 1)"
    unfolding labels_local_def
  proof (intro allI impI conjI)
    fix q assume q: "inside sz q"
    show "(pixel res' sz q = 0) = (pixel src sz q = 0)"
    proof (cases "?C q")
      case True
      then have "pixel src sz q \<noteq> 0" by (simp add: foreground_def)
      with idx newC[OF q True] show ?thesis by simp
    next
      case False
      with newN[OF q False] bg[OF q] show ?thesis by simp
    qed
    show "pixel res' sz q = - 1 \<or> 0 \<le> pixel res' sz q \<and> pixel res' sz q < idx + 1"
      using newC[OF q] newN[OF q] rng[OF q] idx by (cases "?C q") auto
    assume lt: "scan_pos sz q < pos + 1"
    show "pixel res' sz q \<noteq> - 1"
    proof (cases "?C q")
      case True
      with newC[OF q] idx show ?thesis by simp
    next
      case False
      have "q \<noteq> p" using False Cp by blast
      with scan_pos_inj[OF q p(1)] p(2) lt have "scan_pos sz q < pos" by auto
      with scanned[OF q] newN[OF q False] show ?thesis by simp
    qed
  qed
  \<comment> \<open>same label, same component\<close>
  have K: "labels_conn src sz res'"
    unfolding labels_conn_def
  proof (intro allI impI)
    fix a b assume h: "a \<in> ?F \<and> b \<in> ?F \<and> pixel res' sz a \<noteq> - 1"
    then have a: "a \<in> ?F" "inside sz a" and b: "b \<in> ?F" "inside sz b"
      by (simp_all add: foreground_def)
    show "(pixel res' sz b = pixel res' sz a) = connected4 ?F a b"
    proof (cases "?C a")
      case True
      have "pixel res' sz b = idx \<longleftrightarrow> ?C b"
        using newC[OF b(2)] newN[OF b(2)] rng[OF b(2)] idx by (cases "?C b") auto
      with newC[OF a(2) True] C_conn[OF True b(1)] show ?thesis by simp
    next
      case False
      with newN[OF a(2)] h have ra: "pixel res' sz a = pixel res sz a" "pixel res sz a \<noteq> - 1" by simp_all
      from conn a(1) b(1) ra(2) have old: "(pixel res sz b = pixel res sz a) = connected4 ?F a b"
        unfolding labels_conn_def by blast
      show ?thesis
      proof (cases "?C b")
        case True
        have "\<not> connected4 ?F a b"
        proof
          assume "connected4 ?F a b"
          then have "connected4 ?F b a" by (rule connected4_sym)
          with C_conn[OF True a(1)] False a(1) show False by simp
        qed
        moreover have "pixel res' sz b \<noteq> pixel res' sz a"
          using newC[OF b(2) True] ra rng[OF a(2)] by simp
        ultimately show ?thesis by simp
      next
        case False
        with newN[OF b(2)] ra old show ?thesis by simp
      qed
    qed
  qed
  \<comment> \<open>every label is used\<close>
  have U: "labels_used sz res' (pos + 1) (idx + 1)"
    unfolding labels_used_def
  proof (intro allI impI)
    fix k assume k: "1 \<le> k \<and> k < idx + 1"
    show "\<exists>q. inside sz q \<and> pixel res' sz q = k \<and> scan_pos sz q < pos + 1"
    proof (cases "k = idx")
      case True
      with newC[OF p(1) Cp] p show ?thesis by (intro exI[of _ p]) simp
    next
      case False
      with k used obtain q where q: "inside sz q" "pixel res sz q = k" "scan_pos sz q < pos"
        unfolding labels_used_def by (metis add.commute less_le zless_add1_eq)
      with k C_unvisited[of q] have "\<not> ?C q" by auto
      with newN[OF q(1)] q show ?thesis by (intro exI[of _ q]) simp
    qed
  qed
  \<comment> \<open>labels in scan order\<close>
  have O: "labels_order sz res'"
    unfolding labels_order_def
  proof (intro allI impI)
    fix a b assume h: "inside sz a \<and> inside sz b \<and> 1 \<le> pixel res' sz a \<and> pixel res' sz a < pixel res' sz b"
    then have a: "inside sz a" and b: "inside sz b" by simp_all
    have nCa: "\<not> ?C a"
    proof
      assume "?C a"
      with newC[OF a] have "pixel res' sz a = idx" by simp
      with h newC[OF b] newN[OF b] rng[OF b] idx show False by (cases "?C b") auto
    qed
    then have ra: "pixel res' sz a = pixel res sz a" using newN[OF a] by simp
    show "\<exists>p'. inside sz p' \<and> pixel res' sz p' = pixel res' sz a \<and> scan_pos sz p' < scan_pos sz b"
    proof (cases "?C b")
      case True
      from h ra rng[OF a] have k: "1 \<le> pixel res sz a \<and> pixel res sz a < idx" by auto
      with used obtain q where q: "inside sz q" "pixel res sz q = pixel res sz a" "scan_pos sz q < pos"
        unfolding labels_used_def by blast
      with k C_unvisited[of q] have "\<not> ?C q" by auto
      with newN[OF q(1)] q ra have "pixel res' sz q = pixel res' sz a" by simp
      moreover have "pos \<le> scan_pos sz b"
        using scanned[OF b] C_unvisited[OF True] by (cases "scan_pos sz b < pos") auto
      ultimately show ?thesis using q by (intro exI[of _ q]) simp
    next
      case False
      with newN[OF b] have rb: "pixel res' sz b = pixel res sz b" by simp
      with h ra ord a b obtain q where q: "inside sz q" "pixel res sz q = pixel res sz a"
          "scan_pos sz q < scan_pos sz b"
        unfolding labels_order_def by metis
      with h ra C_unvisited[of q] have "\<not> ?C q" by auto
      with newN[OF q(1)] q ra show ?thesis by (intro exI[of _ q]) simp
    qed
  qed
  show ?thesis
    unfolding label_inv_def using len len' idx L K U O by simp
qed


lemma init_labels_cells:
  assumes len: "length res = nat (pt_x sz * pt_y sz)"
  shows "length (init_labels src res sz) = length res \<and>
         (\<forall>j. 0 \<le> j \<and> j < pt_x sz * pt_y sz \<longrightarrow>
            init_labels src res sz ! nat j = (if src ! nat j = 0 then 0 else - 1))"
proof (cases "0 \<le> pt_x sz * pt_y sz")
  case False
  then show ?thesis by (simp add: init_labels_def for_loop_skip)
next
  case True
  let ?f = "\<lambda>j. if src ! nat j = 0 then 0 else (- 1 :: int)"
  let ?I = "\<lambda>i r. length r = length res \<and> (\<forall>j. 0 \<le> j \<and> j < i \<longrightarrow> r ! nat j = ?f j)"
  have "?I (pt_x sz * pt_y sz) (init_labels src res sz)"
    unfolding init_labels_def
  proof (rule for_loop_rule[where I = ?I])
    show "?I 0 res" by simp
    show "0 \<le> pt_x sz * pt_y sz" by (rule True)
  next
    fix i r
    assume i: "0 \<le> i" "i < pt_x sz * pt_y sz" and I: "?I i r"
    have lt: "nat i < length r" using i I len by simp
    show "?I (i + 1) (r[nat i := ?f i])"
    proof (intro conjI allI impI)
      show "length (r[nat i := ?f i]) = length res" using I by simp
    next
      fix j assume j: "0 \<le> j \<and> j < i + 1"
      show "r[nat i := ?f i] ! nat j = ?f j"
      proof (cases "j = i")
        case True
        with lt show ?thesis by simp
      next
        case False
        with j i have "nat i \<noteq> nat j" "0 \<le> j \<and> j < i" by auto
        with I show ?thesis by simp
      qed
    qed
  qed
  then show ?thesis by simp
qed

lemma inside_pos:
  assumes "inside sz p"
  shows "0 \<le> scan_pos sz p" "scan_pos sz p < pt_x sz * pt_y sz"
  using assms index_bound[of "pt_x p" "pt_x sz" "pt_y p" "pt_y sz"]
  by (simp_all add: inside_def scan_pos_def)

lemma pixel_pos: "inside sz p \<Longrightarrow> pixel m sz p = m ! nat (scan_pos sz p)"
  by (simp add: pixel_def offset_def scan_pos_def)

lemma label_inv_init:
  assumes len: "length res = nat (pt_x sz * pt_y sz)"
  shows "label_inv src sz (init_labels src res sz) 0 1"
proof -
  let ?r = "init_labels src res sz"
  note c = init_labels_cells[OF len, of src]
  have px: "pixel ?r sz p = (if pixel src sz p = 0 then 0 else - 1)" if "inside sz p" for p
    using c inside_pos[OF that] by (simp add: pixel_pos[OF that])
  have L: "labels_local src sz ?r 0 1"
    unfolding labels_local_def
  proof (intro allI impI)
    fix p assume p: "inside sz p"
    from inside_pos(1)[OF p] have "\<not> scan_pos sz p < 0" by simp
    with px[OF p] show "(pixel ?r sz p = 0) = (pixel src sz p = 0) \<and>
         (pixel ?r sz p = - 1 \<or> 0 \<le> pixel ?r sz p \<and> pixel ?r sz p < 1) \<and>
         (scan_pos sz p < 0 \<longrightarrow> pixel ?r sz p \<noteq> - 1)" by simp
  qed
  have K: "labels_conn src sz ?r"
    unfolding labels_conn_def using px by (auto simp: foreground_def)
  have U: "labels_used sz ?r 0 1" unfolding labels_used_def by auto
  have O: "labels_order sz ?r"
    unfolding labels_order_def
  proof (intro allI impI)
    fix p q assume "inside sz p \<and> inside sz q \<and> 1 \<le> pixel ?r sz p \<and> pixel ?r sz p < pixel ?r sz q"
    with px[of p] have False by (auto split: if_splits)
    then show "\<exists>p'. inside sz p' \<and> pixel ?r sz p' = pixel ?r sz p \<and> scan_pos sz p' < scan_pos sz q" ..
  qed
  show ?thesis unfolding label_inv_def using c len L K U O by simp
qed


lemma bwlabel_inner_inv:
  assumes "label_inv src sz res (kx + ky * pt_x sz) idx" "0 \<le> kx" "kx \<le> pt_x sz" "0 \<le> ky" "ky < pt_y sz"
  shows "\<exists>res' idx'. bwlabel_inner res sz ky kx (kx + ky * pt_x sz) idx
                        = Some (res', pt_x sz + ky * pt_x sz, idx') \<and>
                      label_inv src sz res' (pt_x sz + ky * pt_x sz) idx'"
  using assms(1,2,3)
proof (induction n \<equiv> "nat (pt_x sz - kx)" arbitrary: res kx idx rule: less_induct)
  case less
  let ?pos = "kx + ky * pt_x sz"
  show ?case
  proof (cases "kx < pt_x sz")
    case False
    with less.prems have "kx = pt_x sz" by simp
    moreover have "bwlabel_inner res sz ky kx ?pos idx = Some (res, ?pos, idx)"
      using False by (subst bwlabel_inner.simps) simp
    ultimately show ?thesis using less.prems(1) by simp
  next
    case True
    let ?p = "XYPoint kx ky"
    have p: "inside sz ?p" "scan_pos sz ?p = ?pos"
      using True less.prems assms(4,5) by (simp_all add: inside_def scan_pos_def)
    have cur: "res ! nat ?pos = pixel res sz ?p" by (simp add: pixel_def offset_def)
    have m: "nat (pt_x sz - (kx + 1)) < nat (pt_x sz - kx)" using True by simp
    have pos': "?pos + 1 = (kx + 1) + ky * pt_x sz" by simp
    show ?thesis
    proof (cases "pixel res sz ?p = - 1")
      case False
      have inv': "label_inv src sz res ((kx + 1) + ky * pt_x sz) idx"
        using label_inv_skip[OF less.prems(1) p False] by (simp add: pos')
      from less.hyps[OF m inv'] True less.prems(2)
      obtain res' idx' where
        r: "bwlabel_inner res sz ky (kx + 1) ((kx + 1) + ky * pt_x sz) idx
              = Some (res', pt_x sz + ky * pt_x sz, idx')"
           "label_inv src sz res' (pt_x sz + ky * pt_x sz) idx'" by auto
      have "bwlabel_inner res sz ky kx ?pos idx
            = bwlabel_inner res sz ky (kx + 1) (?pos + 1) idx"
        using True False cur by (subst bwlabel_inner.simps) simp
      with r show ?thesis by (simp add: pos')
    next
      case unvisited: True
      from less.prems(1) have len: "length res = nat (pt_x sz * pt_y sz)" and idx: "1 \<le> idx"
        by (simp_all add: label_inv_def)
      from floodFill_label[OF len p(1) unvisited idx] obtain res1 where
        ff: "floodFill res sz ?p idx 0 = Some res1" and len1: "length res1 = length res"
        and px1: "\<forall>q. inside sz q \<longrightarrow>
              pixel res1 sz q =
                (if connected4 {p. inside sz p \<and> pixel res sz p = - 1} ?p q \<and> pixel res sz q = - 1
                 then idx else pixel res sz q)" by blast
      have inv': "label_inv src sz res1 ((kx + 1) + ky * pt_x sz) (idx + 1)"
        using label_inv_fill[OF less.prems(1) p unvisited len1 px1] by (simp add: pos')
      from less.hyps[OF m inv'] True less.prems(2)
      obtain res' idx' where
        r: "bwlabel_inner res1 sz ky (kx + 1) ((kx + 1) + ky * pt_x sz) (idx + 1)
              = Some (res', pt_x sz + ky * pt_x sz, idx')"
           "label_inv src sz res' (pt_x sz + ky * pt_x sz) idx'" by auto
      have "bwlabel_inner res sz ky kx ?pos idx
            = bwlabel_inner res1 sz ky (kx + 1) (?pos + 1) (idx + 1)"
        using True unvisited cur ff by (subst bwlabel_inner.simps) simp
      with r show ?thesis by (simp add: pos')
    qed
  qed
qed

lemma bwlabel_outer_inv:
  assumes "label_inv src sz res (ky * pt_x sz) idx" "0 \<le> ky" "ky \<le> pt_y sz" "0 \<le> pt_x sz"
  shows "\<exists>res' idx'. bwlabel_outer res sz ky (ky * pt_x sz) idx = Some (res', idx') \<and>
                      label_inv src sz res' (pt_y sz * pt_x sz) idx'"
  using assms(1,2,3)
proof (induction n \<equiv> "nat (pt_y sz - ky)" arbitrary: res ky idx rule: less_induct)
  case less
  show ?case
  proof (cases "ky < pt_y sz")
    case False
    with less.prems have "ky = pt_y sz" by simp
    moreover have "bwlabel_outer res sz ky (ky * pt_x sz) idx = Some (res, idx)"
      using False by (subst bwlabel_outer.simps) simp
    ultimately show ?thesis using less.prems(1) by simp
  next
    case True
    have inv0: "label_inv src sz res (0 + ky * pt_x sz) idx" using less.prems(1) by simp
    from bwlabel_inner_inv[OF inv0 _ assms(4) less.prems(2) True]
    obtain res1 idx1 where
      r1: "bwlabel_inner res sz ky 0 (ky * pt_x sz) idx = Some (res1, pt_x sz + ky * pt_x sz, idx1)"
      and inv1: "label_inv src sz res1 (pt_x sz + ky * pt_x sz) idx1" by auto
    have e: "pt_x sz + ky * pt_x sz = (ky + 1) * pt_x sz" by (simp add: algebra_simps)
    have m: "nat (pt_y sz - (ky + 1)) < nat (pt_y sz - ky)" using True by simp
    from less.hyps[OF m inv1[unfolded e]] True less.prems(2)
    obtain res' idx' where
      r: "bwlabel_outer res1 sz (ky + 1) ((ky + 1) * pt_x sz) idx1 = Some (res', idx')"
         "label_inv src sz res' (pt_y sz * pt_x sz) idx'" by auto
    have "bwlabel_outer res sz ky (ky * pt_x sz) idx
          = bwlabel_outer res1 sz (ky + 1) ((ky + 1) * pt_x sz) idx1"
      using True r1 by (subst bwlabel_outer.simps) (simp add: e)
    with r show ?thesis by simp
  qed
qed

lemma bwlabel_raw_inv:
  assumes len: "length res = nat (pt_x sz * pt_y sz)" and sz: "0 \<le> pt_x sz" "0 \<le> pt_y sz"
  shows "\<exists>res' idx. bwlabel_raw src res sz = Some (res', idx - 1) \<and>
           label_inv src sz res' (pt_x sz * pt_y sz) idx"
proof -
  have "label_inv src sz (init_labels src res sz) (0 * pt_x sz) 1"
    using label_inv_init[OF len, of src] by simp
  from bwlabel_outer_inv[OF this _ sz(2) sz(1)]
  obtain res' idx where "bwlabel_outer (init_labels src res sz) sz 0 0 1 = Some (res', idx)"
    "label_inv src sz res' (pt_y sz * pt_x sz) idx" by auto
  then show ?thesis by (auto simp: bwlabel_raw_def mult.commute)
qed


lemma cell_pixel: "cell M i j = pixel (elems M) (dims M) (XYPoint i j)"
  by (simp add: cell_def pixel_def offset_def dims_def)

lemma foreground_nonzero: "foreground (elems x) (dims x) = nonzero_pixels x"
  by (simp add: foreground_def nonzero_pixels_def cell_pixel point_eq)

lemma label_at_pixel: "dims L = dims x \<Longrightarrow> label_at L p = pixel (elems L) (dims x) p"
  by (simp add: label_at_def cell_pixel point_eq)

lemma bwlabel_labelled:
  assumes wf: "wf_matrix x"
  shows "\<exists>L n. bwlabel x = Some (L, n) \<and> dims L = dims x \<and> wf_matrix L \<and> 0 \<le> n \<and>
           (\<forall>p. inside (dims x) p \<longrightarrow>
              0 \<le> label_at L p \<and> label_at L p \<le> n \<and>
              (label_at L p = 0 \<longleftrightarrow> cell x (pt_x p) (pt_y p) = 0)) \<and>
           (\<forall>p q. p \<in> nonzero_pixels x \<and> q \<in> nonzero_pixels x \<longrightarrow>
              (label_at L q = label_at L p \<longleftrightarrow> connected4 (nonzero_pixels x) p q)) \<and>
           (\<forall>k. 1 \<le> k \<and> k \<le> n \<longrightarrow> (\<exists>p. inside (dims x) p \<and> label_at L p = k)) \<and>
           labels_order (dims x) (elems L)"
proof -
  let ?sz = "dims x"
  let ?res = "elems (new_matrix (nrow x) (ncol x) (0::int))"
  from wf have sz: "0 \<le> pt_x ?sz" "0 \<le> pt_y ?sz"
    and lenx: "length (elems x) = nat (pt_x ?sz * pt_y ?sz)"
    by (simp_all add: wf_matrix_def dims_def)
  have len: "length ?res = nat (pt_x ?sz * pt_y ?sz)" by (simp add: new_matrix_def dims_def)
  from bwlabel_raw_inv[OF len sz, of "elems x"] obtain res' idx where
    raw: "bwlabel_raw (elems x) ?res ?sz = Some (res', idx - 1)"
    and inv: "label_inv (elems x) ?sz res' (pt_x ?sz * pt_y ?sz) idx" by blast
  let ?L = "Matrix (nrow x) (ncol x) res'"
  have bw: "bwlabel x = Some (?L, idx - 1)"
    using raw by (simp add: bwlabel_def dims_def Let_def)
  have dL: "dims ?L = dims x" by (simp add: dims_def)
  from inv have len': "length res' = nat (pt_x ?sz * pt_y ?sz)" and idx: "1 \<le> idx"
    and loc: "labels_local (elems x) ?sz res' (pt_x ?sz * pt_y ?sz) idx"
    and conn: "labels_conn (elems x) ?sz res'"
    and used: "labels_used ?sz res' (pt_x ?sz * pt_y ?sz) idx"
    and ord: "labels_order ?sz res'"
    by (simp_all add: label_inv_def)
  have wfL: "wf_matrix ?L" using wf len' by (simp add: wf_matrix_def dims_def)
  have lab: "label_at ?L p = pixel res' ?sz p" for p
    using label_at_pixel[OF dL, of p] by simp
  have cells: "0 \<le> label_at ?L p \<and> label_at ?L p \<le> idx - 1 \<and>
              (label_at ?L p = 0 \<longleftrightarrow> cell x (pt_x p) (pt_y p) = 0)" if p: "inside ?sz p" for p
  proof -
    from loc[unfolded labels_local_def, rule_format, OF p] inside_pos(2)[OF p]
    have "pixel res' ?sz p \<noteq> - 1"
      "pixel res' ?sz p = - 1 \<or> (0 \<le> pixel res' ?sz p \<and> pixel res' ?sz p < idx)"
      "(pixel res' ?sz p = 0) = (pixel (elems x) ?sz p = 0)"
      by auto
    then show ?thesis unfolding lab by (simp add: cell_pixel point_eq)
  qed
  have same: "\<forall>p q. p \<in> nonzero_pixels x \<and> q \<in> nonzero_pixels x \<longrightarrow>
              (label_at ?L q = label_at ?L p \<longleftrightarrow> connected4 (nonzero_pixels x) p q)"
  proof (intro allI impI)
    fix p q assume a: "p \<in> nonzero_pixels x \<and> q \<in> nonzero_pixels x"
    then have "inside ?sz p" by (simp add: nonzero_pixels_def)
    with cells[of p] have "pixel res' ?sz p \<noteq> - 1" unfolding lab by auto
    with conn a show "label_at ?L q = label_at ?L p \<longleftrightarrow> connected4 (nonzero_pixels x) p q"
      unfolding labels_conn_def foreground_nonzero lab by blast
  qed
  have use: "\<forall>k. 1 \<le> k \<and> k \<le> idx - 1 \<longrightarrow> (\<exists>p. inside ?sz p \<and> label_at ?L p = k)"
  proof (intro allI impI)
    fix k assume "1 \<le> k \<and> k \<le> idx - 1"
    then have "1 \<le> k \<and> k < idx" by simp
    with used obtain p where "inside ?sz p \<and> pixel res' ?sz p = k" unfolding labels_used_def by blast
    then show "\<exists>p. inside ?sz p \<and> label_at ?L p = k" unfolding lab by blast
  qed
  have "labels_order ?sz (elems ?L)" using ord by simp
  with bw dL wfL idx cells same use show ?thesis by (intro exI[of _ ?L] exI[of _ "idx - 1"]) simp
qed


lemma index_point:
  assumes "0 \<le> pt_x sz" "i < nat (pt_x sz * pt_y sz)"
  shows "\<exists>p. inside sz p \<and> scan_pos sz p = int i"
proof -
  let ?sx = "pt_x sz"
  have pos: "0 < ?sx * pt_y sz" using assms(2) by simp
  with assms(1) have sx: "0 < ?sx" by (cases "?sx = 0") auto
  let ?p = "XYPoint (int i mod ?sx) (int i div ?sx)"
  have x: "0 \<le> int i mod ?sx" "int i mod ?sx < ?sx" using sx by simp_all
  have y0: "0 \<le> int i div ?sx" using sx by (simp add: pos_imp_zdiv_nonneg_iff)
  have y1: "int i div ?sx < pt_y sz"
  proof (rule ccontr)
    assume "\<not> int i div ?sx < pt_y sz"
    then have "pt_y sz * ?sx \<le> (int i div ?sx) * ?sx" using sx by simp
    moreover have "(int i div ?sx) * ?sx + int i mod ?sx = int i" by (rule div_mult_mod_eq)
    ultimately have "pt_y sz * ?sx \<le> int i" using x(1) by linarith
    then show False using assms(2) by (simp add: mult.commute)
  qed
  have "inside sz ?p" using x y0 y1 by (simp add: inside_def)
  moreover have "scan_pos sz ?p = int i" by (simp add: scan_pos_def)
  ultimately show ?thesis by blast
qed

lemma first_index_least:
  assumes "k \<in> set xs"
  shows "first_index xs k < length xs" "xs ! first_index xs k = k"
    "\<forall>j < first_index xs k. xs ! j \<noteq> k"
proof -
  show lt: "first_index xs k < length xs"
    unfolding first_index_def using assms by (induction xs) auto
  from nth_length_takeWhile[OF lt[unfolded first_index_def]]
  show "xs ! first_index xs k = k" by (simp add: first_index_def)
  show "\<forall>j < first_index xs k. xs ! j \<noteq> k"
  proof (intro allI impI)
    fix j assume j: "j < first_index xs k"
    then have "takeWhile (\<lambda>v. v \<noteq> k) xs ! j = xs ! j"
      unfolding first_index_def by (rule takeWhile_nth)
    moreover have "takeWhile (\<lambda>v. v \<noteq> k) xs ! j \<in> set (takeWhile (\<lambda>v. v \<noteq> k) xs)"
      using j unfolding first_index_def by (rule nth_mem)
    ultimately show "xs ! j \<noteq> k" using set_takeWhileD by metis
  qed
qed

lemma first_index_le: "i < length xs \<Longrightarrow> xs ! i = k \<Longrightarrow> first_index xs k \<le> i"
  using first_index_least(3)[of k xs] nth_mem[of i xs] by (metis not_le_imp_less)

lemma finite_nonzero_pixels: "finite (nonzero_pixels x)"
  by (rule finite_subset[OF _ finite_inside[of "dims x"]]) (auto simp: nonzero_pixels_def)

lemma components_card:
  assumes n: "0 \<le> n"
    and pos: "\<forall>p \<in> F. 1 \<le> lab p \<and> lab p \<le> n"
    and same: "\<forall>p \<in> F. \<forall>q \<in> F. lab q = lab p \<longleftrightarrow> connected4 F p q"
    and used: "\<forall>k. 1 \<le> k \<and> k \<le> n \<longrightarrow> (\<exists>p \<in> F. lab p = k)"
  shows "int (card (components F)) = n"
proof -
  let ?g = "\<lambda>k. {q \<in> F. lab q = k}"
  have img: "components F = ?g ` {1..n}"
  proof (intro set_eqI iffI)
    fix C assume "C \<in> components F"
    then obtain p where p: "p \<in> F" "C = {q \<in> F. connected4 F p q}" by (auto simp: components_def)
    have "C = ?g (lab p)" unfolding p(2) using same p(1) by auto
    moreover have "lab p \<in> {1..n}" using pos p(1) by auto
    ultimately show "C \<in> ?g ` {1..n}" by blast
  next
    fix C assume "C \<in> ?g ` {1..n}"
    then obtain k where k: "1 \<le> k \<and> k \<le> n" "C = ?g k" by auto
    from used k(1) obtain p where p: "p \<in> F" "lab p = k" by blast
    have "C = {q \<in> F. connected4 F p q}" unfolding k(2) using same p by auto
    with p(1) show "C \<in> components F" by (auto simp: components_def)
  qed
  have inj: "inj_on ?g {1..n}"
  proof (rule inj_onI)
    fix k l assume k: "k \<in> {1..n}" and l: "l \<in> {1..n}" and eq: "?g k = ?g l"
    from used k obtain p where p: "p \<in> F" "lab p = k" by auto
    then have "p \<in> ?g k" by simp
    with eq have "p \<in> ?g l" by simp
    with p show "k = l" by simp
  qed
  have "card (components F) = card {1..n}" unfolding img by (rule card_image[OF inj])
  then show ?thesis using n by simp
qed

section \<open>Components and label numbering\<close>

text \<open>
  Claim C1. On every well-formed raster the labeller returns a label grid of the same
  size and a label count equal to the number of 4-connected components of the non-zero
  cells. Two non-zero cells carry the same label exactly when a path of edge-adjacent
  non-zero cells joins them, every non-zero cell has a label between \<open>1\<close> and the count,
  every zero cell has label \<open>0\<close>, and a raster with no non-zero cell has count \<open>0\<close>.
\<close>

theorem bwlabel_components:
  assumes wf: "wf_matrix x"
  shows "\<exists>L n. bwlabel x = Some (L, n) \<and> dims L = dims x \<and>
           n = int (card (components (nonzero_pixels x))) \<and>
           (\<forall>p q. p \<in> nonzero_pixels x \<and> q \<in> nonzero_pixels x \<longrightarrow>
               (label_at L p = label_at L q \<longleftrightarrow> connected4 (nonzero_pixels x) p q)) \<and>
           (\<forall>p. p \<in> nonzero_pixels x \<longrightarrow> 1 \<le> label_at L p \<and> label_at L p \<le> n) \<and>
           (\<forall>p. inside (dims x) p \<and> p \<notin> nonzero_pixels x \<longrightarrow> label_at L p = 0) \<and>
           (nonzero_pixels x = {} \<longrightarrow> n = 0)"
proof -
  let ?F = "nonzero_pixels x"
  from bwlabel_labelled[OF wf] obtain L n where bw: "bwlabel x = Some (L, n)"
    and dL: "dims L = dims x" and n: "0 \<le> n"
    and cells: "\<forall>p. inside (dims x) p \<longrightarrow> 0 \<le> label_at L p \<and> label_at L p \<le> n \<and>
              (label_at L p = 0 \<longleftrightarrow> cell x (pt_x p) (pt_y p) = 0)"
    and same: "\<forall>p q. p \<in> ?F \<and> q \<in> ?F \<longrightarrow> (label_at L q = label_at L p \<longleftrightarrow> connected4 ?F p q)"
    and used: "\<forall>k. 1 \<le> k \<and> k \<le> n \<longrightarrow> (\<exists>p. inside (dims x) p \<and> label_at L p = k)" by blast
  have fg: "1 \<le> label_at L p \<and> label_at L p \<le> n" if "p \<in> ?F" for p
  proof -
    from that have i: "inside (dims x) p" and nz: "cell x (pt_x p) (pt_y p) \<noteq> 0"
      by (simp_all add: nonzero_pixels_def)
    from cells i nz have "0 \<le> label_at L p" "label_at L p \<le> n" "label_at L p \<noteq> 0" by blast+
    then show ?thesis by simp
  qed
  have bg: "label_at L p = 0" if "inside (dims x) p \<and> p \<notin> ?F" for p
    using that cells by (simp add: nonzero_pixels_def)
  have used': "\<exists>p \<in> ?F. label_at L p = k" if k: "1 \<le> k \<and> k \<le> n" for k
  proof -
    from used k obtain p where p: "inside (dims x) p" "label_at L p = k" by blast
    with bg[of p] k have "p \<in> ?F" by auto
    with p(2) show ?thesis by blast
  qed
  have card: "int (card (components ?F)) = n"
    by (rule components_card[OF n, where lab = "label_at L"]) (use fg same used' in blast)+
  have empty: "n = 0" if "?F = {}"
    using card that by (simp add: components_def)
  have same': "label_at L p = label_at L q \<longleftrightarrow> connected4 ?F p q" if "p \<in> ?F \<and> q \<in> ?F" for p q
    using same that by (metis (no_types))
  from bw dL card fg bg empty same' show ?thesis by (intro exI[of _ L] exI[of _ n]) blast
qed

text \<open>
  The statement at a raster whose two non-zero cells touch only diagonally: they are not
  connected, and they get the labels \<open>1\<close> and \<open>2\<close>.
\<close>

theorem bwlabel_components_witness:
  "wf_matrix (Matrix 2 2 [1, 0, 0, 3 :: real]) \<and>
   (\<exists>L n. bwlabel (Matrix 2 2 [1, 0, 0, 3]) = Some (L, n) \<and> L = Matrix 2 2 [1, 0, 0, 2] \<and> n = 2 \<and>
      n = int (card (components (nonzero_pixels (Matrix 2 2 [1, 0, 0, 3 :: real])))) \<and>
      XYPoint 0 0 \<in> nonzero_pixels (Matrix 2 2 [1, 0, 0, 3 :: real]) \<and>
      XYPoint 1 1 \<in> nonzero_pixels (Matrix 2 2 [1, 0, 0, 3 :: real]) \<and>
      \<not> connected4 (nonzero_pixels (Matrix 2 2 [1, 0, 0, 3 :: real])) (XYPoint 0 0) (XYPoint 1 1))"
proof -
  let ?x = "Matrix 2 2 [1, 0, 0, 3 :: real]"
  have wf: "wf_matrix ?x" by (simp add: wf_matrix_def)
  have ev: "bwlabel ?x = Some (Matrix 2 2 [1, 0, 0, 2], 2)" by code_simp
  have p: "XYPoint 0 0 \<in> nonzero_pixels ?x" "XYPoint 1 1 \<in> nonzero_pixels ?x"
    by (simp_all add: nonzero_pixels_def inside_def dims_def cell_def)
  from bwlabel_components[OF wf] ev
  have c: "2 = int (card (components (nonzero_pixels ?x)))"
    and s: "\<forall>p q. p \<in> nonzero_pixels ?x \<and> q \<in> nonzero_pixels ?x \<longrightarrow>
               (label_at (Matrix 2 2 [1, 0, 0, 2]) p = label_at (Matrix 2 2 [1, 0, 0, 2]) q
                  \<longleftrightarrow> connected4 (nonzero_pixels ?x) p q)" by auto
  have "label_at (Matrix 2 2 [1, 0, 0, 2]) (XYPoint 0 0) \<noteq> label_at (Matrix 2 2 [1, 0, 0, 2]) (XYPoint 1 1)"
    by (simp add: label_at_def cell_def)
  with s p have "\<not> connected4 (nonzero_pixels ?x) (XYPoint 0 0) (XYPoint 1 1)" by blast
  with wf ev c p show ?thesis by simp
qed


text \<open>
  Claim C9. On every well-formed raster the labeller returns, and with \<open>n\<close> the label
  count it reports, the values of the label grid together with the background value \<open>0\<close>
  are exactly \<open>0, 1, \<dots>, n\<close>: every cell holds \<open>0\<close> or a label from \<open>1\<close> to \<open>n\<close>, and
  every label from \<open>1\<close> to \<open>n\<close> occurs. The labels are handed out in the order in which
  the scan in storage order first meets the components: the first cell labelled \<open>k\<close>
  comes before the first cell labelled \<open>k + 1\<close>.
\<close>

theorem bwlabel_labels_sequential:
  assumes wf: "wf_matrix x"
  shows "\<exists>L n. bwlabel x = Some (L, n) \<and> 0 \<le> n \<and> insert 0 (set (elems L)) = {0..n} \<and>
           (\<forall>k. 1 \<le> k \<and> k < n \<longrightarrow> first_index (elems L) k < first_index (elems L) (k + 1))"
proof -
  let ?sz = "dims x"
  from bwlabel_labelled[OF wf] obtain L n where bw: "bwlabel x = Some (L, n)"
    and dL: "dims L = dims x" and wfL: "wf_matrix L" and n: "0 \<le> n"
    and cells: "\<forall>p. inside ?sz p \<longrightarrow> 0 \<le> label_at L p \<and> label_at L p \<le> n \<and>
              (label_at L p = 0 \<longleftrightarrow> cell x (pt_x p) (pt_y p) = 0)"
    and used: "\<forall>k. 1 \<le> k \<and> k \<le> n \<longrightarrow> (\<exists>p. inside ?sz p \<and> label_at L p = k)"
    and ord: "labels_order ?sz (elems L)" by blast
  have len: "length (elems L) = nat (pt_x ?sz * pt_y ?sz)" and sx: "0 \<le> pt_x ?sz"
    using wfL dL by (simp_all add: wf_matrix_def dims_def)
  have lab: "label_at L p = elems L ! nat (scan_pos ?sz p)" if "inside ?sz p" for p
    using label_at_pixel[OF dL, of p] pixel_pos[OF that, of "elems L"] by simp
  have idx: "nat (scan_pos ?sz p) < length (elems L)" if "inside ?sz p" for p
    using inside_pos[OF that] len by simp
  have pt: "\<exists>p. inside ?sz p \<and> nat (scan_pos ?sz p) = i" if "i < length (elems L)" for i
    using index_point[OF sx, of i] that len by auto
  have sub: "set (elems L) \<subseteq> {0..n}"
  proof
    fix v assume "v \<in> set (elems L)"
    then obtain i where i: "i < length (elems L)" "elems L ! i = v" by (auto simp: in_set_conv_nth)
    from pt[OF i(1)] obtain p where p: "inside ?sz p" "nat (scan_pos ?sz p) = i" by blast
    with cells lab[OF p(1)] i show "v \<in> {0..n}" by auto
  qed
  have has: "k \<in> set (elems L)" if "1 \<le> k \<and> k \<le> n" for k
  proof -
    from used that obtain p where p: "inside ?sz p" "label_at L p = k" by blast
    with lab[OF p(1)] idx[OF p(1)] show ?thesis by (metis nth_mem)
  qed
  have eq: "insert 0 (set (elems L)) = {0..n}"
  proof
    show "insert 0 (set (elems L)) \<subseteq> {0..n}" using sub n by auto
    show "{0..n} \<subseteq> insert 0 (set (elems L))"
    proof
      fix k assume "k \<in> {0..n}"
      then have "k = 0 \<or> (1 \<le> k \<and> k \<le> n)" by auto
      with has show "k \<in> insert 0 (set (elems L))" by auto
    qed
  qed
  have order: "first_index (elems L) k < first_index (elems L) (k + 1)" if k: "1 \<le> k \<and> k < n" for k
  proof -
    from k have "k \<in> set (elems L)" "k + 1 \<in> set (elems L)" by (simp_all add: has)
    note a = first_index_least[OF this(1)] and b = first_index_least[OF this(2)]
    from pt[OF a(1)] obtain p where p: "inside ?sz p" "nat (scan_pos ?sz p) = first_index (elems L) k"
      by blast
    from pt[OF b(1)] obtain q where q: "inside ?sz q" "nat (scan_pos ?sz q) = first_index (elems L) (k + 1)"
      by blast
    have lp: "pixel (elems L) ?sz p = k" using pixel_pos[OF p(1), of "elems L"] p(2) a(2) by simp
    have lq: "pixel (elems L) ?sz q = k + 1" using pixel_pos[OF q(1), of "elems L"] q(2) b(2) by simp
    from ord p(1) q(1) lp lq k obtain p' where p': "inside ?sz p'" "pixel (elems L) ?sz p' = k"
        "scan_pos ?sz p' < scan_pos ?sz q"
      unfolding labels_order_def by (metis zless_add1_eq)
    have "first_index (elems L) k \<le> nat (scan_pos ?sz p')"
      using idx[OF p'(1)] pixel_pos[OF p'(1), of "elems L"] p'(2) by (intro first_index_le) simp_all
    also have "\<dots> < nat (scan_pos ?sz q)" using p'(3) inside_pos(1)[OF p'(1)] by simp
    finally show ?thesis using q(2) by simp
  qed
  from bw n eq order show ?thesis by blast
qed

text \<open>
  The statement at the raster with two diagonal pixels.
\<close>

theorem bwlabel_labels_sequential_witness:
  "wf_matrix (Matrix 2 2 [1, 0, 0, 1 :: real]) \<and>
   (\<exists>L n. bwlabel (Matrix 2 2 [1, 0, 0, 1]) = Some (L, n) \<and> L = Matrix 2 2 [1, 0, 0, 2] \<and> n = 2 \<and>
      insert 0 (set (elems L)) = {0..n} \<and> first_index (elems L) 1 < first_index (elems L) 2)"
proof -
  have wf: "wf_matrix (Matrix 2 2 [1, 0, 0, 1 :: real])" by (simp add: wf_matrix_def)
  have ev: "bwlabel (Matrix 2 2 [1, 0, 0, 1]) = Some (Matrix 2 2 [1, 0, 0, 2], 2)" by code_simp
  from bwlabel_labels_sequential[OF wf] ev
  have "insert 0 (set (elems (Matrix 2 2 [1, 0, 0, 2 :: int]))) = {0..2} \<and>
        (\<forall>k. 1 \<le> k \<and> k < (2::int) \<longrightarrow> first_index (elems (Matrix 2 2 [1, 0, 0, 2])) k
             < first_index (elems (Matrix 2 2 [1, 0, 0, 2])) (k + 1))" by auto
  then have "insert 0 (set (elems (Matrix 2 2 [1, 0, 0, 2 :: int]))) = {0..2} \<and>
        first_index (elems (Matrix 2 2 [1, 0, 0, 2])) 1 < first_index (elems (Matrix 2 2 [1, 0, 0, 2])) 2"
    by force
  with wf ev show ?thesis by simp
qed


section \<open>Clearing the border\<close>

lemma cell_new_matrix:
  assumes "0 \<le> i" "i < nr" "0 \<le> j" "j < nc"
  shows "cell (new_matrix nr nc v) i j = v"
proof -
  have "i + j * nr < nr * nc" using assms by (rule index_bound)
  moreover have "0 \<le> i + j * nr" using assms by simp
  ultimately show ?thesis by (simp add: cell_def new_matrix_def)
qed

lemma nrow_new_matrix [simp]: "nrow (new_matrix nr nc v) = nr"
  and ncol_new_matrix [simp]: "ncol (new_matrix nr nc v) = nc"
  by (simp_all add: new_matrix_def)

lemma for_each_store_cells:
  assumes "wf_matrix M" "list_all (\<lambda>ij. in_bounds M (fst ij) (snd ij)) xs"
  shows "\<exists>M'. for_each (\<lambda>ij. store_cell ij v) xs M = Inr M' \<and> wf_matrix M' \<and>
           nrow M' = nrow M \<and> ncol M' = ncol M \<and>
           (\<forall>i j. in_bounds M i j \<longrightarrow> cell M' i j = (if (i, j) \<in> set xs then v else cell M i j))"
  using assms
proof (induction xs arbitrary: M)
  case Nil
  then show ?case by simp
next
  case (Cons a xs)
  let ?M = "put M (fst a) (snd a) v"
  have a: "in_bounds M (fst a) (snd a)" using Cons.prems(2) by simp
  have "wf_matrix ?M" using Cons.prems(1) by simp
  moreover have "list_all (\<lambda>ij. in_bounds ?M (fst ij) (snd ij)) xs" using Cons.prems(2) by simp
  ultimately obtain M' where M': "for_each (\<lambda>ij. store_cell ij v) xs ?M = Inr M'" "wf_matrix M'"
      "nrow M' = nrow M" "ncol M' = ncol M"
      "\<forall>i j. in_bounds ?M i j \<longrightarrow> cell M' i j = (if (i, j) \<in> set xs then v else cell ?M i j)"
    using Cons.IH[of ?M] by auto
  have "for_each (\<lambda>ij. store_cell ij v) (a # xs) M = Inr M'"
    using a M'(1) by (simp add: store_cell_def)
  moreover have "cell M' i j = (if (i, j) \<in> set (a # xs) then v else cell M i j)"
    if ij: "in_bounds M i j" for i j
  proof -
    have "cell M' i j = (if (i, j) \<in> set xs then v else cell ?M i j)" using M'(5) ij by simp
    moreover have "cell ?M i j = (if fst a = i \<and> snd a = j then v else cell M i j)"
      by (rule cell_put[OF Cons.prems(1) a ij])
    moreover have "(fst a = i \<and> snd a = j) \<longleftrightarrow> a = (i, j)" by auto
    ultimately show ?thesis by auto
  qed
  ultimately show ?case using M'(2,3,4) by blast
qed

lemma frame_accesses:
  assumes "inside (XYPoint nr nc) p"
  shows "p \<in> frame (XYPoint nr nc) ext \<longleftrightarrow> (pt_x p, pt_y p) \<in> set (border_accesses nr nc ext)"
proof
  assume "p \<in> frame (XYPoint nr nc) ext"
  then consider "pt_x p < ext" | "nr - ext \<le> pt_x p" | "pt_y p < ext" | "nc - ext \<le> pt_y p"
    by (auto simp: frame_def)
  then show "(pt_x p, pt_y p) \<in> set (border_accesses nr nc ext)"
  proof cases
    case 1
    then have "\<exists>i j. 0 \<le> i \<and> i < ext \<and> 0 \<le> j \<and> j < nc \<and> (pt_x p = i \<or> pt_x p = nr - i - 1) \<and> pt_y p = j"
      using assms by (intro exI[of _ "pt_x p"] exI[of _ "pt_y p"]) (simp add: inside_def)
    then show ?thesis unfolding border_accesses_iff by blast
  next
    case 2
    then have "\<exists>i j. 0 \<le> i \<and> i < ext \<and> 0 \<le> j \<and> j < nc \<and> (pt_x p = i \<or> pt_x p = nr - i - 1) \<and> pt_y p = j"
      using assms by (intro exI[of _ "nr - pt_x p - 1"] exI[of _ "pt_y p"]) (simp add: inside_def)
    then show ?thesis unfolding border_accesses_iff by blast
  next
    case 3
    then have "\<exists>i j. 0 \<le> i \<and> i < ext \<and> 0 \<le> j \<and> j < nr \<and> pt_x p = j \<and> (pt_y p = i \<or> pt_y p = nc - i - 1)"
      using assms by (intro exI[of _ "pt_y p"] exI[of _ "pt_x p"]) (simp add: inside_def)
    then show ?thesis unfolding border_accesses_iff by blast
  next
    case 4
    then have "\<exists>i j. 0 \<le> i \<and> i < ext \<and> 0 \<le> j \<and> j < nr \<and> pt_x p = j \<and> (pt_y p = i \<or> pt_y p = nc - i - 1)"
      using assms by (intro exI[of _ "nc - pt_y p - 1"] exI[of _ "pt_x p"]) (simp add: inside_def)
    then show ?thesis unfolding border_accesses_iff by blast
  qed
next
  assume "(pt_x p, pt_y p) \<in> set (border_accesses nr nc ext)"
  from border_accesses_cases[OF this] assms show "p \<in> frame (XYPoint nr nc) ext"
    by (auto simp: frame_def)
qed

lemma border_accesses_in_bounds:
  assumes "ext \<le> nr" "ext \<le> nc" "nrow M = nr" "ncol M = nc"
  shows "list_all (\<lambda>ij. in_bounds M (fst ij) (snd ij)) (border_accesses nr nc ext)"
  unfolding list_all_iff
proof
  fix ij assume "ij \<in> set (border_accesses nr nc ext)"
  then have "(fst ij, snd ij) \<in> set (border_accesses nr nc ext)" by simp
  from border_accesses_cases[OF this] assms show "in_bounds M (fst ij) (snd ij)"
    by (auto simp: in_bounds_def)
qed

lemma border_frame_cells:
  assumes nr: "0 \<le> nr" and nc: "0 \<le> nc" and ext: "ext \<le> nr" "ext \<le> nc"
  shows "\<exists>borders. border_frame nr nc ext = Inr borders \<and> nrow borders = nr \<and> ncol borders = nc \<and>
           (\<forall>p. inside (XYPoint nr nc) p \<longrightarrow>
              cell borders (pt_x p) (pt_y p) = (p \<in> frame (XYPoint nr nc) ext))"
proof -
  let ?M = "new_matrix nr nc False"
  have wf: "wf_matrix ?M" using nr nc by (rule wf_new_matrix)
  have "list_all (\<lambda>ij. in_bounds ?M (fst ij) (snd ij)) (border_accesses nr nc ext)"
    using ext by (rule border_accesses_in_bounds) simp_all
  from for_each_store_cells[OF wf this, of True]
  obtain B where B: "border_frame nr nc ext = Inr B" "nrow B = nr" "ncol B = nc"
    "\<forall>i j. in_bounds ?M i j \<longrightarrow>
       cell B i j = (if (i, j) \<in> set (border_accesses nr nc ext) then True else cell ?M i j)"
    unfolding border_frame_def by auto
  have "cell B (pt_x p) (pt_y p) = (p \<in> frame (XYPoint nr nc) ext)" if p: "inside (XYPoint nr nc) p" for p
  proof -
    have ib: "in_bounds ?M (pt_x p) (pt_y p)" using p by (simp add: in_bounds_def inside_def)
    have "cell ?M (pt_x p) (pt_y p) = False"
      using p by (intro cell_new_matrix) (simp_all add: inside_def)
    with B(4) ib frame_accesses[OF p, of ext] show ?thesis by auto
  qed
  with B(1,2,3) show ?thesis by blast
qed

lemma get_border_indices_set:
  "set (get_border_indices L B) = {cell L i j | i j. 0 \<le> i \<and> i < nrow L \<and> 0 \<le> j \<and> j < ncol L \<and> cell B i j}"
proof -
  let ?P = "\<lambda>D s. set s = {cell L i j | i j. (i, j) \<in> D \<and> cell B i j}"
  have "?P ({0..<nrow L} \<times> {0..<ncol L}) (get_border_indices L B)"
    unfolding get_border_indices_def
  proof (rule for_cells_rule[where P = ?P])
    show "?P {} []" by simp
  next
    fix i j D and s :: "int list"
    assume P: "?P D s"
    show "?P (insert (i, j) D) (if cell B i j then List.insert (cell L i j) s else s)"
      using P by auto
  qed
  then show ?thesis by auto
qed

lemma create_label_mask_nth:
  "length (create_label_mask indices bi) = length indices \<and>
   (\<forall>k < length indices. create_label_mask indices bi ! k = (indices ! k \<in> set bi))"
proof -
  let ?I = "\<lambda>i s. length s = length indices \<and> (\<forall>k. int k < i \<longrightarrow> s ! k = (indices ! k \<in> set bi))"
  have "?I (int (length indices)) (create_label_mask indices bi)"
    unfolding create_label_mask_def
  proof (rule for_loop_rule[where I = ?I])
    show "?I 0 (replicate (length indices) False)" by simp
    show "0 \<le> int (length indices)" by simp
  next
    fix i and s :: "bool list"
    assume i: "0 \<le> i" "i < int (length indices)" and I: "?I i s"
    show "?I (i + 1) (s[nat i := indices ! nat i \<in> set bi])"
    proof (intro conjI allI impI)
      show "length (s[nat i := indices ! nat i \<in> set bi]) = length indices" using I by simp
    next
      fix k assume k: "int k < i + 1"
      show "s[nat i := indices ! nat i \<in> set bi] ! k = (indices ! k \<in> set bi)"
      proof (cases "k = nat i")
        case True
        then show ?thesis using i I by simp
      next
        case False
        with k i have "int k < i" by simp
        with I False show ?thesis by simp
      qed
    qed
  qed
  then show ?thesis by simp
qed

lemma create_clear_mask_cells:
  assumes wf: "wf_matrix L"
    and rng: "\<forall>i j. in_bounds L i j \<longrightarrow> 0 \<le> cell L i j \<and> cell L i j < int (length lm)"
  shows "\<exists>cm. create_clear_mask L lm = Inr cm \<and> nrow cm = nrow L \<and> ncol cm = ncol L \<and>
           (\<forall>i j. in_bounds L i j \<longrightarrow> cell cm i j = lm ! nat (cell L i j))"
proof -
  let ?P = "\<lambda>D cm. wf_matrix cm \<and> nrow cm = nrow L \<and> ncol cm = ncol L \<and>
              (\<forall>i j. (i, j) \<in> D \<longrightarrow> cell cm i j = lm ! nat (cell L i j))"
  have "case create_clear_mask L lm of Inl e \<Rightarrow> False
        | Inr cm \<Rightarrow> ?P ({0..<nrow L} \<times> {0..<ncol L}) cm"
    unfolding create_clear_mask_def
  proof (rule for_each_cells_rule[where P = ?P and Q = "\<lambda>e. False"])
    show "?P {} (new_matrix (nrow L) (ncol L) False)"
      using wf wf_new_matrix[of "nrow L" "ncol L" False] by (simp add: wf_matrix_def[of L])
  next
    fix i j D and cm :: "bool matrix"
    assume ij: "0 \<le> i" "i < nrow L" "0 \<le> j" "j < ncol L" and notin: "(i, j) \<notin> D"
      and D: "D \<subseteq> {0..<nrow L} \<times> {0..<ncol L}" and P: "?P D cm"
    have inb: "in_bounds L i j" "in_bounds cm i j" using ij P by (simp_all add: in_bounds_def)
    have ok: "0 \<le> cell L i j \<and> cell L i j < int (length lm)" using rng inb by simp
    have "?P (insert (i, j) D) (put cm i j (lm ! nat (cell L i j)))"
    proof (intro conjI allI impI)
      fix a b assume ab: "(a, b) \<in> insert (i, j) D"
      then have "in_bounds cm a b" using D ij P by (auto simp: in_bounds_def)
      from cell_put[OF _ inb(2) this] P
      have "cell (put cm i j (lm ! nat (cell L i j))) a b
            = (if i = a \<and> j = b then lm ! nat (cell L i j) else cell cm a b)" by simp
      with ab P show "cell (put cm i j (lm ! nat (cell L i j))) a b = lm ! nat (cell L a b)" by auto
    qed (use P in simp_all)
    with ok show "case (let label = cell L i j
                in if 0 \<le> label \<and> label < int (length lm)
                   then Inr (put cm i j (lm ! nat label))
                   else Inl OutOfBounds) of
            Inl e \<Rightarrow> False | Inr s' \<Rightarrow> ?P (insert (i, j) D) s'"
      by (simp add: Let_def)
  qed
  then show ?thesis by (cases "create_clear_mask L lm") (auto simp: in_bounds_def)
qed

lemma clear_border_pixels_cells:
  assumes wf: "wf_matrix out"
  shows "wf_matrix (clear_border_pixels out cm v) \<and> nrow (clear_border_pixels out cm v) = nrow out \<and>
         ncol (clear_border_pixels out cm v) = ncol out \<and>
         (\<forall>i j. in_bounds out i j \<longrightarrow>
            cell (clear_border_pixels out cm v) i j = (if cell cm i j then v else cell out i j))"
proof -
  let ?P = "\<lambda>D out'. wf_matrix out' \<and> nrow out' = nrow out \<and> ncol out' = ncol out \<and>
              (\<forall>i j. in_bounds out i j \<longrightarrow>
                 cell out' i j = (if (i, j) \<in> D \<and> cell cm i j then v else cell out i j))"
  have "?P ({0..<nrow out} \<times> {0..<ncol out}) (clear_border_pixels out cm v)"
    unfolding clear_border_pixels_def
  proof (rule for_cells_rule[where P = ?P])
    show "?P {} out" using wf by simp
  next
    fix i j D and out' :: "real matrix"
    assume ij: "0 \<le> i" "i < nrow out" "0 \<le> j" "j < ncol out" and notin: "(i, j) \<notin> D"
      and P: "?P D out'"
    have inb: "in_bounds out' i j" using ij P by (simp add: in_bounds_def)
    have inb': "in_bounds out' a b = in_bounds out a b" for a b using P by (simp add: in_bounds_def)
    show "?P (insert (i, j) D) (if cell cm i j then put out' i j v else out')"
    proof (cases "cell cm i j")
      case True
      have "?P (insert (i, j) D) (put out' i j v)"
        using P True inb by (auto simp: cell_put inb')
      with True show ?thesis by simp
    next
      case False
      have "?P (insert (i, j) D) out'" using P False by auto
      with False show ?thesis by simp
    qed
  qed
  then show ?thesis by (auto simp: in_bounds_def)
qed


lemma upto_nth: "k < nat (n + 1) \<Longrightarrow> [0..n] ! k = int k"
  using nth_upto[of 0 k n] by simp

lemma clear_border_result:
  assumes wf: "wf_matrix x"
    and ext: "buffer_size + 1 \<le> nrow x" "buffer_size + 1 \<le> ncol x"
  shows "\<exists>out L n. clear_border x buffer_size bgval = Some (Inr out) \<and> bwlabel x = Some (L, n) \<and>
           dims out = dims x \<and>
           (\<forall>p. inside (dims x) p \<longrightarrow>
              cell out (pt_x p) (pt_y p) =
                (if \<exists>q \<in> frame (dims x) (buffer_size + 1). label_at L q = label_at L p then bgval
                 else cell x (pt_x p) (pt_y p)))"
proof -
  let ?nr = "nrow x" and ?nc = "ncol x" and ?ext = "buffer_size + 1"
  have nn: "0 \<le> ?nr" "0 \<le> ?nc" using wf by (simp_all add: wf_matrix_def)
  from border_frame_cells[OF nn ext] obtain B where B: "border_frame ?nr ?nc ?ext = Inr B"
    "nrow B = ?nr" "ncol B = ?nc"
    "\<forall>p. inside (dims x) p \<longrightarrow> cell B (pt_x p) (pt_y p) = (p \<in> frame (dims x) ?ext)"
    unfolding dims_def by blast
  from bwlabel_labelled[OF wf] obtain L n where bw: "bwlabel x = Some (L, n)"
    and dL: "dims L = dims x" and wfL: "wf_matrix L" and n: "0 \<le> n"
    and cells: "\<forall>p. inside (dims x) p \<longrightarrow> 0 \<le> label_at L p \<and> label_at L p \<le> n \<and>
              (label_at L p = 0 \<longleftrightarrow> cell x (pt_x p) (pt_y p) = 0)" by blast
  have dimL: "nrow L = ?nr" "ncol L = ?nc" using dL by (simp_all add: dims_def)
  let ?bi = "get_border_indices L B"
  let ?lm = "create_label_mask [0..n] ?bi"
  have bi: "k \<in> set ?bi \<longleftrightarrow> (\<exists>q \<in> frame (dims x) ?ext. label_at L q = k)" for k
  proof
    assume "k \<in> set ?bi"
    then obtain i j where ij: "0 \<le> i" "i < ?nr" "0 \<le> j" "j < ?nc" "cell B i j" "k = cell L i j"
      unfolding get_border_indices_set dimL by blast
    then have "inside (dims x) (XYPoint i j)" by (simp add: inside_def dims_def)
    with B(4) ij(5) have "XYPoint i j \<in> frame (dims x) ?ext" by fastforce
    moreover have "label_at L (XYPoint i j) = k" using ij(6) by (simp add: label_at_def)
    ultimately show "\<exists>q \<in> frame (dims x) ?ext. label_at L q = k" by blast
  next
    assume "\<exists>q \<in> frame (dims x) ?ext. label_at L q = k"
    then obtain q where q: "q \<in> frame (dims x) ?ext" "label_at L q = k" by blast
    then have i: "inside (dims x) q" by (simp add: frame_def)
    with B(4) q(1) have "cell B (pt_x q) (pt_y q)" by simp
    moreover have "0 \<le> pt_x q \<and> pt_x q < ?nr \<and> 0 \<le> pt_y q \<and> pt_y q < ?nc"
      using i by (simp add: inside_def dims_def)
    ultimately show "k \<in> set ?bi" unfolding get_border_indices_set dimL
      using q(2) by (auto simp: label_at_def)
  qed
  have len: "length [0..n] = nat (n + 1)" by simp
  have lm_len: "length ?lm = nat (n + 1)" using create_label_mask_nth[of "[0..n]" ?bi] by simp
  have lm: "?lm ! nat k = (k \<in> set ?bi)" if "0 \<le> k" "k \<le> n" for k
  proof -
    have k: "nat k < length [0..n]" using that by simp
    with create_label_mask_nth[of "[0..n]" ?bi] have "?lm ! nat k = ([0..n] ! nat k \<in> set ?bi)" by blast
    moreover have "[0..n] ! nat k = k" using upto_nth[of "nat k" n] that by simp
    ultimately show ?thesis by simp
  qed
  have pt: "inside (dims x) (XYPoint i j)" if "in_bounds L i j" for i j
    using that dimL by (simp add: in_bounds_def inside_def dims_def)
  have rng: "\<forall>i j. in_bounds L i j \<longrightarrow> 0 \<le> cell L i j \<and> cell L i j < int (length ?lm)"
  proof (intro allI impI)
    fix i j assume "in_bounds L i j"
    from cells pt[OF this] have "0 \<le> label_at L (XYPoint i j) \<and> label_at L (XYPoint i j) \<le> n" by blast
    then show "0 \<le> cell L i j \<and> cell L i j < int (length ?lm)"
      unfolding lm_len using n by (simp add: label_at_def)
  qed
  from create_clear_mask_cells[OF wfL rng] obtain cm where cm: "create_clear_mask L ?lm = Inr cm"
    "\<forall>i j. in_bounds L i j \<longrightarrow> cell cm i j = ?lm ! nat (cell L i j)" by blast
  let ?out = "clear_border_pixels x cm bgval"
  note cbp = clear_border_pixels_cells[OF wf, of cm bgval]
  have res: "clear_border x buffer_size bgval = Some (Inr ?out)"
    unfolding clear_border_def by (simp add: Let_def B(1) bw cm(1))
  have "cell ?out (pt_x p) (pt_y p) =
          (if \<exists>q \<in> frame (dims x) ?ext. label_at L q = label_at L p then bgval
           else cell x (pt_x p) (pt_y p))" if p: "inside (dims x) p" for p
  proof -
    have ib: "in_bounds x (pt_x p) (pt_y p)" "in_bounds L (pt_x p) (pt_y p)"
      using p dimL by (simp_all add: in_bounds_def inside_def dims_def)
    from cells p have r: "0 \<le> label_at L p" "label_at L p \<le> n" by blast+
    have "cell cm (pt_x p) (pt_y p) = ?lm ! nat (label_at L p)"
      using cm(2) ib(2) by (simp add: label_at_def)
    also have "\<dots> = (label_at L p \<in> set ?bi)" by (rule lm[OF r])
    finally have "cell cm (pt_x p) (pt_y p) = (\<exists>q \<in> frame (dims x) ?ext. label_at L q = label_at L p)"
      unfolding bi .
    with cbp ib(1) show ?thesis by simp
  qed
  moreover have "dims ?out = dims x" using cbp by (simp add: dims_def)
  ultimately show ?thesis using res bw by blast
qed


lemma clear_border_labels:
  assumes wf: "wf_matrix x"
    and ext: "buffer_size + 1 \<le> nrow x" "buffer_size + 1 \<le> ncol x"
  shows "\<exists>out L. clear_border x buffer_size bgval = Some (Inr out) \<and> dims out = dims x \<and>
           (\<forall>p. inside (dims x) p \<longrightarrow>
              cell out (pt_x p) (pt_y p) =
                (if \<exists>q \<in> frame (dims x) (buffer_size + 1). label_at L q = label_at L p then bgval
                 else cell x (pt_x p) (pt_y p))) \<and>
           (\<forall>p. inside (dims x) p \<longrightarrow> (label_at L p = 0 \<longleftrightarrow> cell x (pt_x p) (pt_y p) = 0)) \<and>
           (\<forall>p q. p \<in> nonzero_pixels x \<and> q \<in> nonzero_pixels x \<longrightarrow>
              (label_at L q = label_at L p \<longleftrightarrow> connected4 (nonzero_pixels x) p q))"
proof -
  from clear_border_result[OF assms, of bgval] obtain out L n
    where out: "clear_border x buffer_size bgval = Some (Inr out)" "bwlabel x = Some (L, n)"
      "dims out = dims x"
      "\<forall>p. inside (dims x) p \<longrightarrow>
              cell out (pt_x p) (pt_y p) =
                (if \<exists>q \<in> frame (dims x) (buffer_size + 1). label_at L q = label_at L p then bgval
                 else cell x (pt_x p) (pt_y p))" by blast
  from bwlabel_labelled[OF wf] out(2)
  have "\<forall>p. inside (dims x) p \<longrightarrow> (label_at L p = 0 \<longleftrightarrow> cell x (pt_x p) (pt_y p) = 0)"
    and "\<forall>p q. p \<in> nonzero_pixels x \<and> q \<in> nonzero_pixels x \<longrightarrow>
              (label_at L q = label_at L p \<longleftrightarrow> connected4 (nonzero_pixels x) p q)" by auto
  with out(1,3,4) show ?thesis by blast
qed

lemma components_isolated:
  assumes "\<forall>p \<in> S. \<forall>q \<in> S. \<not> adjacent4 p q"
  shows "components S = (\<lambda>p. {p}) ` S"
proof -
  have e: "{(a, b). a \<in> S \<and> b \<in> S \<and> adjacent4 a b} = {}" using assms by auto
  have "connected4 S p q \<longleftrightarrow> p = q" for p q unfolding connected4_def e by simp
  then show ?thesis by (auto simp: components_def)
qed

section \<open>What border clearing keeps and what it paints\<close>

text \<open>
  Claim C2. Let the non-zero pixels of a well-formed raster form exactly the two
  4-connected components \<open>A\<close> and \<open>B\<close>, where no pixel of \<open>A\<close> lies in the border frame
  (the outer \<open>buffer_size + 1\<close> rows and columns) and some pixel of \<open>B\<close> does. Then
  \<^verbatim>\<open>clear_border\<close> returns a grid of the same size in which every pixel of \<open>A\<close> has its
  original value and every pixel of \<open>B\<close> equals \<open>bgval\<close>.
\<close>

theorem clear_border_two_components:
  assumes wf: "wf_matrix x"
    and two: "components (nonzero_pixels x) = {A, B}"
    and A: "A \<inter> frame (dims x) (buffer_size + 1) = {}"
    and B: "B \<inter> frame (dims x) (buffer_size + 1) \<noteq> {}"
  shows "\<exists>out. clear_border x buffer_size bgval = Some (Inr out) \<and> dims out = dims x \<and>
           (\<forall>p \<in> A. cell out (pt_x p) (pt_y p) = cell x (pt_x p) (pt_y p)) \<and>
           (\<forall>p \<in> B. cell out (pt_x p) (pt_y p) = bgval)"
proof -
  let ?F = "nonzero_pixels x" and ?fr = "frame (dims x) (buffer_size + 1)"
  from two have "A \<in> components ?F" "B \<in> components ?F" by simp_all
  then obtain a b where a: "a \<in> ?F" "A = {q \<in> ?F. connected4 ?F a q}"
    and b: "b \<in> ?F" "B = {q \<in> ?F. connected4 ?F b q}" by (auto simp: components_def)
  have "a \<in> A" using a by simp
  with A have "a \<notin> ?fr" by blast
  moreover have ia: "inside (dims x) a" using a(1) by (simp add: nonzero_pixels_def)
  ultimately have ext: "buffer_size + 1 \<le> nrow x" "buffer_size + 1 \<le> ncol x"
    by (auto simp: frame_def inside_def dims_def)
  from clear_border_labels[OF wf ext, of bgval] obtain out L
    where out: "clear_border x buffer_size bgval = Some (Inr out)" "dims out = dims x"
      and px: "\<forall>p. inside (dims x) p \<longrightarrow>
              cell out (pt_x p) (pt_y p) =
                (if \<exists>q \<in> ?fr. label_at L q = label_at L p then bgval else cell x (pt_x p) (pt_y p))"
      and zero: "\<forall>p. inside (dims x) p \<longrightarrow> (label_at L p = 0 \<longleftrightarrow> cell x (pt_x p) (pt_y p) = 0)"
      and same: "\<forall>p q. p \<in> ?F \<and> q \<in> ?F \<longrightarrow> (label_at L q = label_at L p \<longleftrightarrow> connected4 ?F p q)"
    by blast
  have keep: "cell out (pt_x p) (pt_y p) = cell x (pt_x p) (pt_y p)" if p: "p \<in> A" for p
  proof -
    from p a(2) have pF: "p \<in> ?F" and ap: "connected4 ?F a p" by simp_all
    then have ip: "inside (dims x) p" and nz: "cell x (pt_x p) (pt_y p) \<noteq> 0"
      by (simp_all add: nonzero_pixels_def)
    have "\<not> (\<exists>q \<in> ?fr. label_at L q = label_at L p)"
    proof
      assume "\<exists>q \<in> ?fr. label_at L q = label_at L p"
      then obtain q where q: "q \<in> ?fr" "label_at L q = label_at L p" by blast
      then have iq: "inside (dims x) q" by (simp add: frame_def)
      from zero ip nz have "label_at L p \<noteq> 0" by simp
      with q(2) zero iq have "cell x (pt_x q) (pt_y q) \<noteq> 0" by metis
      with iq have qF: "q \<in> ?F" by (simp add: nonzero_pixels_def)
      with same pF q(2) have "connected4 ?F p q" by blast
      with ap have "connected4 ?F a q" by (rule connected4_trans)
      with qF a(2) have "q \<in> A" by simp
      with q(1) A show False by blast
    qed
    with px ip show ?thesis by simp
  qed
  have clear: "cell out (pt_x p) (pt_y p) = bgval" if p: "p \<in> B" for p
  proof -
    from p b(2) have pF: "p \<in> ?F" and bp: "connected4 ?F b p" by simp_all
    then have ip: "inside (dims x) p" by (simp add: nonzero_pixels_def)
    from B obtain q where q: "q \<in> B" "q \<in> ?fr" by blast
    with b(2) have qF: "q \<in> ?F" and bq: "connected4 ?F b q" by simp_all
    have "connected4 ?F p q" using connected4_trans[OF connected4_sym[OF bp] bq] .
    with same pF qF have "label_at L q = label_at L p" by blast
    with q(2) have "\<exists>q \<in> ?fr. label_at L q = label_at L p" by blast
    with px ip show ?thesis by simp
  qed
  from out keep clear show ?thesis by blast
qed

text \<open>
  The statement at a 3 by 3 raster with one pixel in the centre and one in a corner.
\<close>

theorem clear_border_two_components_witness:
  "wf_matrix (Matrix 3 3 [3, 0, 0, 0, 2, 0, 0, 0, 0 :: real]) \<and>
   components (nonzero_pixels (Matrix 3 3 [3, 0, 0, 0, 2, 0, 0, 0, 0 :: real]))
     = {{XYPoint 1 1}, {XYPoint 0 0}} \<and>
   {XYPoint 1 1} \<inter> frame (dims (Matrix 3 3 [3, 0, 0, 0, 2, 0, 0, 0, 0 :: real])) (0 + 1) = {} \<and>
   {XYPoint 0 0} \<inter> frame (dims (Matrix 3 3 [3, 0, 0, 0, 2, 0, 0, 0, 0 :: real])) (0 + 1) \<noteq> {} \<and>
   (\<exists>out. clear_border (Matrix 3 3 [3, 0, 0, 0, 2, 0, 0, 0, 0]) 0 7 = Some (Inr out) \<and>
      cell out 1 1 = 2 \<and> cell out 0 0 = 7)"
proof -
  let ?x = "Matrix 3 3 [3, 0, 0, 0, 2, 0, 0, 0, 0 :: real]"
  have wf: "wf_matrix ?x" by (simp add: wf_matrix_def)
  have three: "i = 0 \<or> i = 1 \<or> i = 2" if "0 \<le> i" "i < 3" for i :: int using that by arith
  have F: "nonzero_pixels ?x = {XYPoint 1 1, XYPoint 0 0}"
  proof (intro set_eqI iffI)
    fix p assume "p \<in> nonzero_pixels ?x"
    then have i: "0 \<le> pt_x p" "pt_x p < 3" "0 \<le> pt_y p" "pt_y p < 3"
      and nz: "cell ?x (pt_x p) (pt_y p) \<noteq> 0"
      by (simp_all add: nonzero_pixels_def inside_def dims_def)
    from three[OF i(1,2)] three[OF i(3,4)] nz
    have "(pt_x p = 1 \<and> pt_y p = 1) \<or> (pt_x p = 0 \<and> pt_y p = 0)"
      by (elim disjE) (simp_all add: cell_def)
    then show "p \<in> {XYPoint 1 1, XYPoint 0 0}" by (cases p) auto
  next
    fix p assume "p \<in> {XYPoint 1 1, XYPoint 0 0}"
    then show "p \<in> nonzero_pixels ?x"
      by (auto simp: nonzero_pixels_def inside_def dims_def cell_def)
  qed
  have two: "components (nonzero_pixels ?x) = {{XYPoint 1 1}, {XYPoint 0 0}}"
    unfolding F by (subst components_isolated) (simp_all add: adjacent4_def)
  have A: "{XYPoint 1 1} \<inter> frame (dims ?x) (0 + 1) = {}"
    by (simp add: frame_def dims_def)
  have B: "{XYPoint 0 0} \<inter> frame (dims ?x) (0 + 1) \<noteq> {}"
    by (simp add: frame_def dims_def inside_def)
  from clear_border_two_components[OF wf two A B, of 7] obtain out
    where "clear_border ?x 0 7 = Some (Inr out)" "cell out 1 1 = cell ?x 1 1" "cell out 0 0 = 7"
    by auto
  then have "\<exists>out. clear_border ?x 0 7 = Some (Inr out) \<and> cell out 1 1 = 2 \<and> cell out 0 0 = 7"
    by (simp add: cell_def)
  with wf two A B show ?thesis by blast
qed

text \<open>
  Claim C6 fails as stated. Label \<open>0\<close> is one of the indices of the label mask, so when a
  background pixel lies in the border frame the mask is true at every background pixel:
  on the raster below, whose only non-zero pixel is the centre, every background pixel is
  painted with \<open>bgval = 9\<close>.
\<close>

theorem clear_border_paints_background:
  "cell (Matrix 3 3 [0, 0, 0, 0, 2, 0, 0, 0, 0 :: real]) 0 0 = 0 \<and>
   clear_border (Matrix 3 3 [0, 0, 0, 0, 2, 0, 0, 0, 0]) 0 9
     = Some (Inr (Matrix 3 3 [9, 9, 9, 9, 2, 9, 9, 9, 9]))"
  by code_simp

text \<open>
  Claim C6, as amended. When the border frame fits in the raster
  (\<open>buffer_size + 1\<close> at most the row count and the column count), \<^verbatim>\<open>clear_border\<close>
  returns a grid in which a background pixel (value \<open>0\<close>) is unchanged if no background
  pixel lies in the border frame, and equals \<open>bgval\<close> if some background pixel does.
\<close>

theorem clear_border_background:
  assumes wf: "wf_matrix x"
    and ext: "buffer_size + 1 \<le> min (nrow x) (ncol x)"
  shows "\<exists>out. clear_border x buffer_size bgval = Some (Inr out) \<and> dims out = dims x \<and>
           (\<forall>p. inside (dims x) p \<and> cell x (pt_x p) (pt_y p) = 0 \<longrightarrow>
              cell out (pt_x p) (pt_y p) =
                (if \<exists>q \<in> frame (dims x) (buffer_size + 1). cell x (pt_x q) (pt_y q) = 0 then bgval
                 else 0))"
proof -
  let ?fr = "frame (dims x) (buffer_size + 1)"
  from ext have ext': "buffer_size + 1 \<le> nrow x" "buffer_size + 1 \<le> ncol x" by simp_all
  from clear_border_labels[OF wf ext', of bgval] obtain out L
    where out: "clear_border x buffer_size bgval = Some (Inr out)" "dims out = dims x"
      and px: "\<forall>p. inside (dims x) p \<longrightarrow>
              cell out (pt_x p) (pt_y p) =
                (if \<exists>q \<in> ?fr. label_at L q = label_at L p then bgval else cell x (pt_x p) (pt_y p))"
      and zero: "\<forall>p. inside (dims x) p \<longrightarrow> (label_at L p = 0 \<longleftrightarrow> cell x (pt_x p) (pt_y p) = 0)"
    by blast
  have "cell out (pt_x p) (pt_y p) =
          (if \<exists>q \<in> ?fr. cell x (pt_x q) (pt_y q) = 0 then bgval else 0)"
    if p: "inside (dims x) p \<and> cell x (pt_x p) (pt_y p) = 0" for p
  proof -
    from zero p have l: "label_at L p = 0" by simp
    have "(\<exists>q \<in> ?fr. label_at L q = 0) \<longleftrightarrow> (\<exists>q \<in> ?fr. cell x (pt_x q) (pt_y q) = 0)"
      using zero by (auto simp: frame_def)
    with px p l show ?thesis by simp
  qed
  with out show ?thesis by blast
qed


text \<open>
  The amended statement at the raster of the counterexample, for the background pixel in
  row 2, column 1.
\<close>

theorem clear_border_background_witness:
  "wf_matrix (Matrix 3 3 [0, 0, 0, 0, 2, 0, 0, 0, 0 :: real]) \<and>
   0 + 1 \<le> min (nrow (Matrix 3 3 [0, 0, 0, 0, 2, 0, 0, 0, 0 :: real]))
               (ncol (Matrix 3 3 [0, 0, 0, 0, 2, 0, 0, 0, 0 :: real])) \<and>
   inside (dims (Matrix 3 3 [0, 0, 0, 0, 2, 0, 0, 0, 0 :: real])) (XYPoint 2 1) \<and>
   cell (Matrix 3 3 [0, 0, 0, 0, 2, 0, 0, 0, 0 :: real]) 2 1 = 0 \<and>
   XYPoint 0 0 \<in> frame (dims (Matrix 3 3 [0, 0, 0, 0, 2, 0, 0, 0, 0 :: real])) (0 + 1) \<and>
   (\<exists>out. clear_border (Matrix 3 3 [0, 0, 0, 0, 2, 0, 0, 0, 0]) 0 9 = Some (Inr out) \<and>
      cell out 2 1 = 9)"
proof -
  let ?x = "Matrix 3 3 [0, 0, 0, 0, 2, 0, 0, 0, 0 :: real]"
  have wf: "wf_matrix ?x" by (simp add: wf_matrix_def)
  have ext: "0 + 1 \<le> min (nrow ?x) (ncol ?x)" by simp
  have p: "inside (dims ?x) (XYPoint 2 1)" "cell ?x 2 1 = 0"
    by (simp_all add: inside_def dims_def cell_def)
  have q: "XYPoint 0 0 \<in> frame (dims ?x) (0 + 1)" "cell ?x 0 0 = 0"
    by (simp_all add: frame_def inside_def dims_def cell_def)
  then have ex: "\<exists>q \<in> frame (dims ?x) (0 + 1). cell ?x (pt_x q) (pt_y q) = 0"
    by (intro bexI[of _ "XYPoint 0 0"]) simp_all
  from clear_border_background[OF wf ext, of 9] obtain out
    where out: "clear_border ?x 0 9 = Some (Inr out)"
      and px: "\<forall>p. inside (dims ?x) p \<and> cell ?x (pt_x p) (pt_y p) = 0 \<longrightarrow>
              cell out (pt_x p) (pt_y p) =
                (if \<exists>q \<in> frame (dims ?x) (0 + 1). cell ?x (pt_x q) (pt_y q) = 0 then 9 else 0)"
    by blast
  from px[rule_format, of "XYPoint 2 1"] p ex have "cell out 2 1 = 9" by simp
  with wf ext p q(1) out show ?thesis by blast
qed


section \<open>Which objects the orchestrators write\<close>

lemma clear_border_call_preserves:
  assumes "clear_border_call h labels buffer_size bgval = Some (Inr (h', out))"
  shows "out = length (reals h) \<and> ints h' = ints h \<and> (\<forall>a < length (reals h). reals h' ! a = reals h ! a)"
  using assms
  by (auto simp: clear_border_call_def clone_def nth_append split: option.splits sum.splits)

text \<open>
  Claim C8 holds for \<^verbatim>\<open>clear_border\<close> (the lemma above: the result is a new object and
  every object of the caller keeps its contents) and fails for \<^verbatim>\<open>process_lung_regions\<close>.
  On a heap with the label grid \<open>[1, 2]\<close> at address \<open>0\<close> and two regions, of which only
  the first passes the extent filter, the call returns address \<open>0\<close> itself as its
  processed image, and the caller's grid at address \<open>0\<close> has become \<open>[1, 0]\<close>.
\<close>

theorem process_lung_regions_call_overwrites_argument:
  "process_lung_regions_call
     (Heap [] [Matrix 1 2 [1, 2], Matrix 2 4 [0, 0, 0, 400, 0, 1, 0, 1]]) 0 1
   = Inr (Heap [] [Matrix 1 2 [1, 0], Matrix 2 4 [0, 0, 0, 400, 0, 1, 0, 1]], 0, [1], False)"
  by code_simp

end
